theory Spec2Isabelle
  imports Main "HOL-Library.Word"
begin

unbundle bit_operations_syntax

section \<open>Bytes and Python errors\<close>

text \<open>
  A Python \<open>bytes\<close> object is a list of 8-bit words. Every exception the modelled code
  can raise is a value of \<open>error\<close>; \<open>ValueError\<close> carries its message, since the code
  raises it in more than one place.
\<close>

type_synonym byte = "8 word"
type_synonym bytes = "byte list"

datatype error =
    ValueError string
  | IndexError
  | OverflowError
  | TypeError
  | KeyError
  | AssertionError
  | StructError
  | OSError

text \<open>\<open>int.from_bytes(bs, "little")\<close>, unsigned.\<close>

fun from_bytes_little :: "bytes \<Rightarrow> nat" where
  "from_bytes_little [] = 0"
| "from_bytes_little (b # bs) = unat b + 256 * from_bytes_little bs"

section \<open>utils.py: the status TLV decoder\<close>

text \<open>
  \<open>parse_status_struct\<close> is a generator. Its model is the pair of the entries it yields,
  in order, and the exception that ends the iteration, if any. \<open>data[index]\<close> raises
  \<open>IndexError\<close> out of range, a slice never raises.
\<close>

type_synonym entry = "byte \<times> nat \<times> bytes"

function parse_entries :: "bytes \<Rightarrow> nat \<Rightarrow> nat \<Rightarrow> entry list \<times> error option" where
  "parse_entries data len index =
     (if index < len then
        (if index < length data then
           (if index + 1 < length data then
              (let header = data ! index;
                   parameter_length = unat (data ! (index + 1));
                   parameter_data = take parameter_length (drop (index + 2) data);
                   rest = parse_entries data len (index + 2 + parameter_length)
               in ((header, parameter_length, parameter_data) # fst rest, snd rest))
            else ([], Some IndexError))
         else ([], Some IndexError))
      else ([], None))"
  by pat_completeness auto
termination
  by (relation "measure (\<lambda>(data, len, index). len - index)") auto

declare parse_entries.simps [simp del]

definition parse_status_struct :: "bytes \<Rightarrow> entry list \<times> error option" where
  "parse_status_struct data =
     (let len = from_bytes_little (take 2 data) in
      if length data \<noteq> len + 2 then ([], Some (ValueError ''Status payload length invalid''))
      else parse_entries data len 2)"


section \<open>status.py: consumable levels\<close>

datatype ConsumableStatus =
  OKAY | EMPTY | MISSING | FAIL | ConsumableStatus_UNKNOWN

record ConsumableLevel =
  level :: int
  status :: ConsumableStatus

definition from_int :: "int \<Rightarrow> ConsumableLevel" where
  "from_int v =
     (if v = 110 then \<lparr>level = -1, status = MISSING\<rparr>
      else if v = 105 then \<lparr>level = -1, status = ConsumableStatus_UNKNOWN\<rparr>
      else if v < 0 \<or> v > 100 then \<lparr>level = -1, status = FAIL\<rparr>
      else if v = 0 then \<lparr>level = v, status = EMPTY\<rparr>
      else \<lparr>level = v, status = OKAY\<rparr>)"

section \<open>status.py: enums and the status structure\<close>

text \<open>
  An enum is a datatype; calling the enum class on a raw value is a lookup in the table of
  its members' values, and \<open>_missing_\<close> gives the fallback member.
\<close>

datatype PrinterState =
  ERROR | SELF_PRINTING | BUSY | WAITING | IDLE | PAUSE | INKDRYING | CLEANING
  | FACTORY_SHIPMENT | MOTOR_DRIVE_OFF | SHUTDOWN | WAITPAPERINIT | INIT_PAPER

definition PrinterState_values :: "(int \<times> PrinterState) list" where
  "PrinterState_values =
     [(0x00, ERROR), (0x01, SELF_PRINTING), (0x02, BUSY), (0x03, WAITING), (0x04, IDLE),
      (0x05, PAUSE), (0x06, INKDRYING), (0x07, CLEANING), (0x08, FACTORY_SHIPMENT),
      (0x09, MOTOR_DRIVE_OFF), (0x0A, SHUTDOWN), (0x0B, WAITPAPERINIT), (0x0C, INIT_PAPER)]"

definition PrinterState_of :: "int \<Rightarrow> PrinterState" where
  "PrinterState_of v = (case map_of PrinterState_values v of Some m \<Rightarrow> m | None \<Rightarrow> ERROR)"

datatype PrinterError =
  NONE | FATAL | INTERFACE | PAPERJAM | INKOUT | PAPEROUT | PAPERSIZE | PAPERPATH
  | SERVICEREQ | DOUBLEFEED | INKCOVEROPEN | NOMAINTENANCEBOX | COVEROPEN | NOTRAY
  | CARDLOADING | CDDVDCONFIG | CARTRIDGEOVERFLOW | BATTERYVOLTAGE | BATTERYTEMPERATURE
  | BATTERYEMPTY | SHUTOFF | NOT_INITIALFILL | PRINTPACKEND | MAINTENANCEBOXCOVEROPEN
  | SCANNEROPEN | CDRGUIDEOPEN | CDREXIST | CDREXIST_MAINTE | TRAYCLOSE

definition PrinterError_values :: "(int \<times> PrinterError) list" where
  "PrinterError_values =
     [(-1, NONE), (0x00, FATAL), (0x01, INTERFACE), (0x04, PAPERJAM), (0x05, INKOUT),
      (0x06, PAPEROUT), (0x0A, PAPERSIZE), (0x0C, PAPERPATH), (0x10, SERVICEREQ),
      (0x12, DOUBLEFEED), (0x1A, INKCOVEROPEN), (0x22, NOMAINTENANCEBOX), (0x25, COVEROPEN),
      (0x29, NOTRAY), (0x2A, CARDLOADING), (0x2B, CDDVDCONFIG), (0x2C, CARTRIDGEOVERFLOW),
      (0x2F, BATTERYVOLTAGE), (0x30, BATTERYTEMPERATURE), (0x31, BATTERYEMPTY),
      (0x32, SHUTOFF), (0x33, NOT_INITIALFILL), (0x34, PRINTPACKEND),
      (0x36, MAINTENANCEBOXCOVEROPEN), (0x37, SCANNEROPEN), (0x38, CDRGUIDEOPEN),
      (0x44, CDREXIST), (0x45, CDREXIST_MAINTE), (0x46, TRAYCLOSE)]"

definition PrinterError_of :: "int \<Rightarrow> PrinterError" where
  "PrinterError_of v = (case map_of PrinterError_values v of Some m \<Rightarrow> m | None \<Rightarrow> FATAL)"

datatype PaperPath = PaperPath_UNKNOWN | ROLL | FANFOLD | ROLL_BACK

definition PaperPath_values :: "(int \<times> PaperPath) list" where
  "PaperPath_values = [(-1, PaperPath_UNKNOWN), (0x00, ROLL), (0x01, FANFOLD), (0x02, ROLL_BACK)]"

definition PaperPath_of :: "int \<Rightarrow> PaperPath" where
  "PaperPath_of v =
     (case map_of PaperPath_values v of Some m \<Rightarrow> m | None \<Rightarrow> PaperPath_UNKNOWN)"

datatype InkColor =
  BLACK | CYAN | MAGENTA | YELLOW | LIGHT_CYAN | LIGHT_MAGENTA | DARK_YELLOW | GRAY
  | LIGHT_BLACK | RED | BLUE | GLOSS_OPTIMIZER | LIGHT_GRAY | ORANGE | InkColor_UNKNOWN

definition InkColor_values :: "(int \<times> InkColor) list" where
  "InkColor_values =
     [(0, BLACK), (1, CYAN), (2, MAGENTA), (3, YELLOW), (4, LIGHT_CYAN), (5, LIGHT_MAGENTA),
      (6, DARK_YELLOW), (7, GRAY), (8, LIGHT_BLACK), (9, RED), (10, BLUE),
      (11, GLOSS_OPTIMIZER), (12, LIGHT_GRAY), (13, ORANGE), (-1, InkColor_UNKNOWN)]"

definition InkColor_of :: "int \<Rightarrow> InkColor" where
  "InkColor_of v = (case map_of InkColor_values v of Some m \<Rightarrow> m | None \<Rightarrow> InkColor_UNKNOWN)"

record InkLevel = ConsumableLevel +
  color :: InkColor

text \<open>\<open>InkLevel.from_bytes\<close>: \<open>entry[1]\<close> is read before \<open>entry[2]\<close>.\<close>

definition InkLevel_from_bytes :: "bytes \<Rightarrow> error + InkLevel" where
  "InkLevel_from_bytes entry =
     (if length entry \<le> 1 then Inl IndexError
      else if length entry \<le> 2 then Inl IndexError
      else
        (let color = InkColor_of (uint (entry ! 1));
             consumable_level = from_int (uint (entry ! 2))
         in Inr \<lparr>level = level consumable_level, status = status consumable_level,
                  color = color\<rparr>))"

text \<open>
  \<open>str(parameter_data)\<close> on a \<open>bytes\<close> object is its \<open>repr\<close>: \<open>b'...'\<close>, in double
  quotes when the data holds a single quote and no double quote, with the quote and the
  backslash escaped, tab, newline and carriage return as \<open>\t\<close>, \<open>\n\<close>, \<open>\r\<close>, and every
  other byte outside 0x20..0x7e as \<open>\xhh\<close>.
\<close>

definition hexdigit :: "nat \<Rightarrow> char" where
  "hexdigit n = ''0123456789abcdef'' ! n"

definition repr_byte :: "byte \<Rightarrow> byte \<Rightarrow> string" where
  "repr_byte quote c =
     (if c = quote \<or> c = 0x5C then [CHR 0x5C, char_of (unat c)]
      else if c = 0x09 then [CHR 0x5C, CHR ''t'']
      else if c = 0x0A then [CHR 0x5C, CHR ''n'']
      else if c = 0x0D then [CHR 0x5C, CHR ''r'']
      else if c < 0x20 \<or> c \<ge> 0x7F
        then [CHR 0x5C, CHR ''x'', hexdigit (unat c div 16), hexdigit (unat c mod 16)]
      else [char_of (unat c)])"

definition bytes_str :: "bytes \<Rightarrow> string" where
  "bytes_str bs =
     (let quote = (if 0x27 \<in> set bs \<and> 0x22 \<notin> set bs then 0x22 else 0x27)
      in [CHR ''b'', char_of (unat quote)] @ concat (map (repr_byte quote) bs)
           @ [char_of (unat quote)])"

record Status =
  state :: PrinterState
  error :: PrinterError
  source :: PaperPath
  levels :: "InkLevel list"
  maintenance_box :: ConsumableLevel
  serial :: string
  other :: "byte \<rightharpoonup> bytes"

text \<open>\<open>range(start, stop, step)\<close> for a positive step, as a list.\<close>

function py_range :: "nat \<Rightarrow> nat \<Rightarrow> nat \<Rightarrow> nat list" where
  "py_range start stop step =
     (if start < stop \<and> 0 < step then start # py_range (start + step) stop step else [])"
  by pat_completeness auto
termination
  by (relation "measure (\<lambda>(start, stop, step). stop - start)") auto

declare py_range.simps [simp del]

text \<open>A list comprehension whose element expression may raise: the first error wins.\<close>

fun map_result :: "('a \<Rightarrow> error + 'b) \<Rightarrow> 'a list \<Rightarrow> error + 'b list" where
  "map_result f [] = Inr []"
| "map_result f (x # xs) =
     (case f x of
        Inl e \<Rightarrow> Inl e
      | Inr y \<Rightarrow> (case map_result f xs of Inl e \<Rightarrow> Inl e | Inr ys \<Rightarrow> Inr (y # ys)))"

text \<open>The body of the loop of \<open>Status.from_bytes\<close>, for one yielded entry.\<close>

definition from_bytes_entry :: "Status \<Rightarrow> entry \<Rightarrow> error + Status" where
  "from_bytes_entry st e =
     (case e of (header, parameter_length, parameter_data) \<Rightarrow>
        if header = 0x01 then
          (case parameter_data of [] \<Rightarrow> Inl IndexError
           | b # _ \<Rightarrow> Inr (st\<lparr>state := PrinterState_of (uint b)\<rparr>))
        else if header = 0x02 then
          (case parameter_data of [] \<Rightarrow> Inl IndexError
           | b # _ \<Rightarrow> Inr (st\<lparr>error := PrinterError_of (uint b)\<rparr>))
        else if header = 0x06 then
          (case parameter_data of [] \<Rightarrow> Inl IndexError
           | b # _ \<Rightarrow> Inr (st\<lparr>source := PaperPath_of (3 - uint b)\<rparr>))
        else if header = 0x0D then
          (case parameter_data of [] \<Rightarrow> Inl IndexError
           | b # _ \<Rightarrow> Inr (st\<lparr>maintenance_box := from_int (uint b)\<rparr>))
        else if header = 0x0F then
          (case parameter_data of [] \<Rightarrow> Inl IndexError
           | b # _ \<Rightarrow>
               (let entry_size = unat b in
                if entry_size = 0 then Inl (ValueError ''range() arg 3 must not be zero'')
                else
                  (case map_result
                          (\<lambda>i. InkLevel_from_bytes (take entry_size (drop i parameter_data)))
                          (py_range 1 (length parameter_data) entry_size) of
                     Inl err \<Rightarrow> Inl err
                   | Inr ls \<Rightarrow> Inr (st\<lparr>levels := ls\<rparr>))))
        else if header = 0x40 then Inr (st\<lparr>serial := bytes_str parameter_data\<rparr>)
        else Inr (st\<lparr>other := (other st)(header \<mapsto> parameter_data)\<rparr>))"

fun from_bytes_loop :: "Status \<Rightarrow> entry list \<Rightarrow> error + Status" where
  "from_bytes_loop st [] = Inr st"
| "from_bytes_loop st (e # es) =
     (case from_bytes_entry st e of Inl err \<Rightarrow> Inl err | Inr st' \<Rightarrow> from_bytes_loop st' es)"

definition Status_initial :: Status where
  "Status_initial =
     \<lparr>state = IDLE, error = NONE, source = PaperPath_UNKNOWN, levels = [],
      maintenance_box = \<lparr>level = -1, status = ConsumableStatus_UNKNOWN\<rparr>,
      serial = [], other = Map.empty\<rparr>"

text \<open>
  \<open>Status.from_bytes\<close> consumes the generator: the entries yielded are handled in order,
  and the exception that ends the iteration, if any, is raised after them.
\<close>

definition from_bytes :: "bytes \<Rightarrow> error + Status" where
  "from_bytes data =
     (case parse_status_struct data of (es, gen_error) \<Rightarrow>
        (case from_bytes_loop Status_initial es of
           Inl err \<Rightarrow> Inl err
         | Inr st \<Rightarrow> (case gen_error of Some err \<Rightarrow> Inl err | None \<Rightarrow> Inr st)))"

section \<open>devices.py and printer.py: the printer facade\<close>

record Counter =
  addresses :: "int list"
  Counter_max :: int

text \<open>The \<open>reset\<close> dict is an association list in insertion order, as \<open>items()\<close> iterates it.\<close>

record Device =
  model :: bytes
  key :: bytes
  counters :: "Counter list"
  reset :: "(int \<times> int) list"

text \<open>\<open>v.to_bytes(n, "little")\<close>: \<open>OverflowError\<close> for a negative value or one that needs more bytes.\<close>

definition to_bytes_little :: "int \<Rightarrow> nat \<Rightarrow> error + bytes" where
  "to_bytes_little v n =
     (if v < 0 \<or> v \<ge> 256 ^ n then Inl OverflowError
      else Inr (map (\<lambda>i. word_of_int (v div 256 ^ i)) [0..<n]))"

text \<open>\<open>bytes(ints)\<close>: \<open>ValueError\<close> unless every value is in \<open>range(256)\<close>.\<close>

definition bytes_of_ints :: "int list \<Rightarrow> error + bytes" where
  "bytes_of_ints xs =
     (if \<forall>x \<in> set xs. 0 \<le> x \<and> x < 256 then Inr (map word_of_int xs)
      else Inl (ValueError ''bytes must be in range(0, 256)''))"

text \<open>
  The control backend is an interface: \<open>send\<close> takes the command and the backend's state
  and returns the response or an error, with the state it leaves behind.
\<close>

type_synonym 's ControlBackend = "bytes \<Rightarrow> 's \<Rightarrow> (error + bytes) \<times> 's"

definition send_command ::
  "'s ControlBackend \<Rightarrow> bytes \<Rightarrow> bytes \<Rightarrow> 's \<Rightarrow> (error + bytes) \<times> 's" where
  "send_command send command payload s =
     (case to_bytes_little (int (length payload)) 2 of
        Inl e \<Rightarrow> (Inl e, s)
      | Inr len \<Rightarrow> send (command @ len @ payload) s)"

definition action_code :: "int \<Rightarrow> error + bytes" where
  "action_code action =
     bytes_of_ints
       [action, action XOR 0xFF, (drop_bit 1 action AND 0x7F) OR (push_bit 7 action AND 0x80)]"

definition send_factory_command ::
  "'s ControlBackend \<Rightarrow> bytes \<Rightarrow> int \<Rightarrow> bytes \<Rightarrow> 's \<Rightarrow> (error + bytes) \<times> 's" where
  "send_factory_command send mdl action payload s =
     (case action_code action of
        Inl e \<Rightarrow> (Inl e, s)
      | Inr code \<Rightarrow> send_command send [0x7C, 0x7C] (mdl @ code @ payload) s)"

definition write_eeprom ::
  "'s ControlBackend \<Rightarrow> Device \<Rightarrow> int \<Rightarrow> int \<Rightarrow> 's \<Rightarrow> (error + bytes) \<times> 's" where
  "write_eeprom send device address val s =
     (case to_bytes_little address 2 of
        Inl e \<Rightarrow> (Inl e, s)
      | Inr a \<Rightarrow>
          (case to_bytes_little val 1 of
             Inl e \<Rightarrow> (Inl e, s)
           | Inr v \<Rightarrow> send_factory_command send (model device) 0x42 (a @ v @ key device) s))"

fun reset_waste_loop ::
  "'s ControlBackend \<Rightarrow> Device \<Rightarrow> (int \<times> int) list \<Rightarrow> 's \<Rightarrow> (error + unit) \<times> 's" where
  "reset_waste_loop send device [] s = (Inr (), s)"
| "reset_waste_loop send device ((addr, val) # items) s =
     (case write_eeprom send device addr val s of
        (Inl e, s') \<Rightarrow> (Inl e, s')
      | (Inr _, s') \<Rightarrow> reset_waste_loop send device items s')"

definition reset_waste :: "'s ControlBackend \<Rightarrow> Device \<Rightarrow> 's \<Rightarrow> (error + unit) \<times> 's" where
  "reset_waste send device s = reset_waste_loop send device (reset device) s"

text \<open>
  A backend for examples: it records every command it is given and fails with \<open>OSError\<close>
  on the command that arrives when \<open>n\<close> commands have been recorded.
\<close>

definition recording_backend :: "nat \<Rightarrow> bytes list ControlBackend" where
  "recording_backend n command sent =
     (if length sent = n then Inl OSError else Inr [], sent @ [command])"

definition example_device :: Device where
  "example_device = \<lparr>model = [1], key = [7], counters = [],
     reset = [(0x10, 0), (0x11, 0), (0x12, 0)]\<rparr>"

section \<open>transport.py: the transport interface\<close>

text \<open>
  \<open>Transport\<close> is an interface; the device behind it is the environment. The model is a
  scripted transport: \<open>inbound\<close> holds the bytes the device sends from the moment the
  engine has drained the line (so \<open>drain\<close> changes nothing), \<open>outbound\<close> records every
  \<open>write\<close> in order. \<open>read(size)\<close> blocks until \<open>size\<close> bytes are there: on a script
  with fewer bytes left it never returns, which the model ends with \<open>OSError\<close>; with
  \<open>size \<le> 0\<close> it returns the empty byte string.
\<close>

record Transport =
  inbound :: bytes
  outbound :: "bytes list"

definition transport_read :: "int \<Rightarrow> Transport \<Rightarrow> (error + bytes) \<times> Transport" where
  "transport_read n t =
     (if n \<le> 0 then (Inr [], t)
      else if int (length (inbound t)) < n then (Inl OSError, t)
      else (Inr (take (nat n) (inbound t)), t\<lparr>inbound := drop (nat n) (inbound t)\<rparr>))"

definition transport_write :: "bytes \<Rightarrow> Transport \<Rightarrow> Transport" where
  "transport_write data t = t\<lparr>outbound := outbound t @ [data]\<rparr>"

definition transport_drain :: "Transport \<Rightarrow> Transport" where
  "transport_drain t = t"

section \<open>d4.py: packets, channels and the engine\<close>

text \<open>
  \<open>psid\<close> of a packet is optional because \<open>D4Channel.write\<close> builds its packets from
  \<open>self.psid\<close>, which is \<open>None\<close> until the channel is opened.
\<close>

datatype D4Packet =
  D4Packet (psid: "int option") (ssid: int) (credit: int) (control: int) (payload: bytes)

datatype D4Command =
    D4Command_Init
  | D4Command_OpenChannel
  | D4Command_CloseChannel
  | D4Command_Credit
  | D4Command_CreditRequest
  | D4Command_Exit
  | D4Command_GetSocketID

fun D4Command_value :: "D4Command \<Rightarrow> int" where
  "D4Command_value D4Command_Init = 0"
| "D4Command_value D4Command_OpenChannel = 1"
| "D4Command_value D4Command_CloseChannel = 2"
| "D4Command_value D4Command_Credit = 3"
| "D4Command_value D4Command_CreditRequest = 4"
| "D4Command_value D4Command_Exit = 8"
| "D4Command_value D4Command_GetSocketID = 9"

record D4Channel =
  ssid :: int
  psid :: "int option"
  mtu :: "int option"
  tx_credits :: int
  rx_credits :: int
  rx_credits_max :: int
  rx_queue :: "D4Packet list"

definition D4Channel_init :: "int \<Rightarrow> D4Channel" where
  "D4Channel_init s =
     \<lparr>ssid = s, psid = None, mtu = None, tx_credits = 0, rx_credits = 0,
      rx_credits_max = 0x0001, rx_queue = []\<rparr>"

text \<open>
  Channel objects are shared between the engine's table and its callers, so they live in
  a store indexed by reference; \<open>open_channels\<close> maps a psid to a reference, and
  \<open>allocated\<close> counts the objects created so far. \<open>history\<close> is a history variable: the
  three statements of the source that change \<open>tx_credits\<close> by an amount append what they
  did to it, and nothing reads it.
\<close>

datatype event =
    Sent nat D4Packet
  | Received nat D4Packet
  | Granted nat int

record D4 =
  transport :: Transport
  channels :: "nat \<Rightarrow> D4Channel"
  allocated :: nat
  open_channels :: "int \<rightharpoonup> nat"
  history :: "event list"

definition update_channel :: "nat \<Rightarrow> (D4Channel \<Rightarrow> D4Channel) \<Rightarrow> D4 \<Rightarrow> D4" where
  "update_channel r f s = s\<lparr>channels := (channels s)(r := f (channels s r))\<rparr>"

definition record_event :: "event \<Rightarrow> D4 \<Rightarrow> D4" where
  "record_event ev s = s\<lparr>history := history s @ [ev]\<rparr>"

subsection \<open>\<open>struct.pack\<close> and \<open>struct.unpack\<close>, big-endian\<close>

definition in_range :: "int \<Rightarrow> int \<Rightarrow> bool" where
  "in_range v n = (0 \<le> v \<and> v < n)"

definition u8 :: "int \<Rightarrow> bytes" where
  "u8 v = [word_of_int v]"

definition u16be :: "int \<Rightarrow> bytes" where
  "u16be v = [word_of_int (v div 256), word_of_int v]"

definition pack_BBHBB :: "int option \<Rightarrow> int \<Rightarrow> int \<Rightarrow> int \<Rightarrow> int \<Rightarrow> error + bytes" where
  "pack_BBHBB p s len cr ctl =
     (case p of
        None \<Rightarrow> Inl StructError
      | Some p' \<Rightarrow>
          if in_range p' 256 \<and> in_range s 256 \<and> in_range len 65536 \<and> in_range cr 256
             \<and> in_range ctl 256
          then Inr (u8 p' @ u8 s @ u16be len @ u8 cr @ u8 ctl)
          else Inl StructError)"

definition pack_BBH :: "int option \<Rightarrow> int \<Rightarrow> int \<Rightarrow> error + bytes" where
  "pack_BBH p s amount =
     (case p of
        None \<Rightarrow> Inl StructError
      | Some p' \<Rightarrow>
          if in_range p' 256 \<and> in_range s 256 \<and> in_range amount 65536
          then Inr (u8 p' @ u8 s @ u16be amount)
          else Inl StructError)"

definition pack_BB :: "int option \<Rightarrow> int \<Rightarrow> error + bytes" where
  "pack_BB p s =
     (case p of
        None \<Rightarrow> Inl StructError
      | Some p' \<Rightarrow>
          if in_range p' 256 \<and> in_range s 256 then Inr (u8 p' @ u8 s) else Inl StructError)"

definition pack_BBHHHH :: "int \<Rightarrow> int \<Rightarrow> int \<Rightarrow> int \<Rightarrow> int \<Rightarrow> int \<Rightarrow> error + bytes" where
  "pack_BBHHHH p s a b c d =
     (if in_range p 256 \<and> in_range s 256 \<and> in_range a 65536 \<and> in_range b 65536
         \<and> in_range c 65536 \<and> in_range d 65536
      then Inr (u8 p @ u8 s @ u16be a @ u16be b @ u16be c @ u16be d)
      else Inl StructError)"

definition unpack_BBHBB :: "bytes \<Rightarrow> error + int \<times> int \<times> int \<times> int \<times> int" where
  "unpack_BBHBB bs =
     (case bs of
        [a, b, c1, c0, d, e] \<Rightarrow> Inr (uint a, uint b, uint c1 * 256 + uint c0, uint d, uint e)
      | _ \<Rightarrow> Inl StructError)"

definition unpack_BBH :: "bytes \<Rightarrow> error + int \<times> int \<times> int" where
  "unpack_BBH bs =
     (case bs of
        [a, b, c1, c0] \<Rightarrow> Inr (uint a, uint b, uint c1 * 256 + uint c0)
      | _ \<Rightarrow> Inl StructError)"

definition unpack_BBHHH :: "bytes \<Rightarrow> error + int \<times> int \<times> int \<times> int \<times> int" where
  "unpack_BBHHH bs =
     (case bs of
        [a, b, c1, c0, d1, d0, e1, e0] \<Rightarrow>
          Inr (uint a, uint b, uint c1 * 256 + uint c0, uint d1 * 256 + uint d0,
               uint e1 * 256 + uint e0)
      | _ \<Rightarrow> Inl StructError)"

subsection \<open>Writing and reading packets\<close>

definition write_packet :: "nat \<Rightarrow> D4Packet \<Rightarrow> D4 \<Rightarrow> (error + unit) \<times> D4" where
  "write_packet r packet s =
     (case pack_BBHBB (D4Packet.psid packet) (D4Packet.ssid packet)
             (6 + int (length (payload packet))) (credit packet) (control packet) of
        Inl e \<Rightarrow> (Inl e, s)
      | Inr header \<Rightarrow>
          (Inr (),
           record_event (Sent r packet)
             (update_channel r (\<lambda>c. c\<lparr>tx_credits := tx_credits c - 1\<rparr>)
                (s\<lparr>transport := transport_write (header @ payload packet) (transport s)\<rparr>))))"

definition read_next_packet :: "D4 \<Rightarrow> (error + unit) \<times> D4" where
  "read_next_packet s =
     (case transport_read 6 (transport s) of
        (Inl e, t1) \<Rightarrow> (Inl e, s\<lparr>transport := t1\<rparr>)
      | (Inr header_data, t1) \<Rightarrow>
          (case unpack_BBHBB header_data of
             Inl e \<Rightarrow> (Inl e, s\<lparr>transport := t1\<rparr>)
           | Inr (p, sid, len, cr, ctl) \<Rightarrow>
               (case transport_read (len - 6) t1 of
                  (Inl e, t2) \<Rightarrow> (Inl e, s\<lparr>transport := t2\<rparr>)
                | (Inr pl, t2) \<Rightarrow>
                    (case open_channels s p of
                       None \<Rightarrow> (Inr (), s\<lparr>transport := t2\<rparr>)
                     | Some r \<Rightarrow>
                         (Inr (),
                          record_event (Received r (D4Packet (Some p) sid cr ctl pl))
                            (update_channel r
                               (\<lambda>c. c\<lparr>tx_credits := tx_credits c + cr,
                                       rx_credits := rx_credits c - 1,
                                       rx_queue := rx_queue c @ [D4Packet (Some p) sid cr ctl pl]\<rparr>)
                               (s\<lparr>transport := t2\<rparr>)))))))"

lemma transport_read_inbound:
  "transport_read n t = (res, t')
     \<Longrightarrow> outbound t' = outbound t \<and> length (inbound t') \<le> length (inbound t)
       \<and> (0 < n \<and> (\<exists>bs. res = Inr bs)
            \<longrightarrow> int (length (inbound t')) + n = int (length (inbound t)))"
  by (auto simp: transport_read_def split: if_splits)

lemma read_next_packet_inbound:
  assumes "read_next_packet s = (Inr u, s')"
  shows "length (inbound (transport s')) + 6 \<le> length (inbound (transport s))"
proof -
  from assms obtain header_data t1 h len pl t2 where
    r1: "transport_read 6 (transport s) = (Inr header_data, t1)"
    and r2: "transport_read len t1 = (Inr pl, t2)"
    and s': "transport s' = t2"
    by (auto simp: read_next_packet_def update_channel_def record_event_def
        split: prod.splits sum.splits option.splits)
  from transport_read_inbound [OF r1] transport_read_inbound [OF r2] s'
  show ?thesis by auto
qed

function read_packet :: "nat \<Rightarrow> D4 \<Rightarrow> (error + D4Packet) \<times> D4" where
  "read_packet r s =
     (case rx_queue (channels s r) of
        [] \<Rightarrow>
          (case read_next_packet s of
             (Inl e, s') \<Rightarrow> (Inl e, s')
           | (Inr u, s') \<Rightarrow> read_packet r s')
      | packet # queue \<Rightarrow> (Inr packet, update_channel r (\<lambda>c. c\<lparr>rx_queue := queue\<rparr>) s))"
  by pat_completeness auto
termination
proof (relation "measure (\<lambda>(r, s). length (inbound (transport s)))", goal_cases)
  case 1
  show ?case by simp
next
  case (2 r s x1 x2 u)
  then have "read_next_packet s = (Inr u, x2)" by simp
  from read_next_packet_inbound [OF this] show ?case by simp
qed

declare read_packet.simps [simp del]

subsection \<open>Commands on channel 0\<close>

text \<open>
  The checks \<open>D4.command\<close> makes on the reply, in the order of the source: the assertion
  on \<open>psid\<close>, \<open>res.payload[0]\<close>, \<open>res.payload[3]\<close> when an error reply is logged, the
  two assertions on the first two bytes, and the slice \<open>res.payload[2:]\<close>.
\<close>

definition check_reply :: "D4Command \<Rightarrow> D4Packet \<Rightarrow> error + bytes" where
  "check_reply cmd res =
     (if D4Packet.psid res \<noteq> Some 0 then Inl AssertionError
      else
        (case payload res of
           [] \<Rightarrow> Inl IndexError
         | b0 # rest \<Rightarrow>
             if b0 = 0x7F \<and> length (payload res) < 4 then Inl IndexError
             else if uint b0 \<noteq> D4Command_value cmd OR 0x80 then Inl AssertionError
             else
               (case rest of
                  [] \<Rightarrow> Inl IndexError
                | b1 # out \<Rightarrow> if b1 \<noteq> 0 then Inl AssertionError else Inr out)))"

text \<open>
  \<open>self.open_channels[0]\<close> raises \<open>KeyError\<close> when channel 0 is not in the table;
  \<open>assert self.open_channels[0].tx_credits\<close> fails exactly when the counter is 0. The
  table is the same at the three places the source looks channel 0 up.
\<close>

definition command_packet :: "D4Command \<Rightarrow> bytes \<Rightarrow> D4Packet" where
  "command_packet cmd pl =
     D4Packet (Some 0x00) 0x00 1 0x00 (word_of_int (D4Command_value cmd) # pl)"

definition command :: "D4Command \<Rightarrow> bytes \<Rightarrow> D4 \<Rightarrow> (error + bytes) \<times> D4" where
  "command cmd pl s =
     (case open_channels s 0 of
        None \<Rightarrow> (Inl KeyError, s)
      | Some r0 \<Rightarrow>
          if cmd \<notin> {D4Command_Init, D4Command_Exit} \<and> tx_credits (channels s r0) = 0
          then (Inl AssertionError, s)
          else
            (case write_packet r0 (command_packet cmd pl) s of
               (Inl e, s1) \<Rightarrow> (Inl e, s1)
             | (Inr u, s1) \<Rightarrow>
                 (case read_packet r0 s1 of
                    (Inl e, s2) \<Rightarrow> (Inl e, s2)
                  | (Inr res, s2) \<Rightarrow>
                      (case check_reply cmd res of
                         Inl e \<Rightarrow> (Inl e, s2)
                       | Inr out \<Rightarrow> (Inr out, s2)))))"

definition Init :: "D4 \<Rightarrow> (error + unit) \<times> D4" where
  "Init s =
     (case command D4Command_Init [0x10] s of
        (Inl e, s1) \<Rightarrow> (Inl e, s1)
      | (Inr resp, s1) \<Rightarrow> if resp = [0x10] then (Inr (), s1) else (Inl AssertionError, s1))"

definition Exit :: "D4 \<Rightarrow> (error + unit) \<times> D4" where
  "Exit s =
     (case command D4Command_Exit [] s of
        (Inl e, s1) \<Rightarrow> (Inl e, s1)
      | (Inr resp, s1) \<Rightarrow> (Inr (), s1))"

text \<open>\<open>name.encode("ascii")\<close> raises \<open>UnicodeEncodeError\<close>, a \<open>ValueError\<close>, outside ASCII.\<close>

definition encode_ascii :: "string \<Rightarrow> error + bytes" where
  "encode_ascii name =
     (if \<forall>c \<in> set name. (of_char c :: nat) < 128 then Inr (map (\<lambda>c. of_char c) name)
      else Inl (ValueError ''ascii codec cannot encode character''))"

definition GetSocketID :: "string \<Rightarrow> D4 \<Rightarrow> (error + int) \<times> D4" where
  "GetSocketID name s =
     (case encode_ascii name of
        Inl e \<Rightarrow> (Inl e, s)
      | Inr encoded \<Rightarrow>
          (case command D4Command_GetSocketID encoded s of
             (Inl e, s1) \<Rightarrow> (Inl e, s1)
           | (Inr resp, s1) \<Rightarrow>
               (case resp of [] \<Rightarrow> (Inl IndexError, s1) | b # _ \<Rightarrow> (Inr (uint b), s1))))"

definition OpenChannel :: "nat \<Rightarrow> D4 \<Rightarrow> (error + unit) \<times> D4" where
  "OpenChannel r s =
     (case pack_BBHHHH (ssid (channels s r)) (ssid (channels s r)) 0xFFFF 0xFFFF 0x0000 0x0000 of
        Inl e \<Rightarrow> (Inl e, s)
      | Inr req \<Rightarrow>
          (case command D4Command_OpenChannel req s of
             (Inl e, s1) \<Rightarrow> (Inl e, s1)
           | (Inr res, s1) \<Rightarrow>
               (case unpack_BBHHH res of
                  Inl e \<Rightarrow> (Inl e, s1)
                | Inr (p, sid, m, max_credit, cr) \<Rightarrow>
                    if sid \<noteq> ssid (channels s1 r) then (Inl AssertionError, s1)
                    else
                      (Inr (),
                       (update_channel r
                          (\<lambda>c. c\<lparr>psid := Some p, mtu := Some m, tx_credits := cr\<rparr>) s1)
                         \<lparr>open_channels := (open_channels s1)(p \<mapsto> r)\<rparr>))))"

text \<open>\<open>del self.open_channels[channel.psid]\<close> raises \<open>KeyError\<close> for a key not in the table.\<close>

definition CloseChannel :: "nat \<Rightarrow> D4 \<Rightarrow> (error + unit) \<times> D4" where
  "CloseChannel r s =
     (case pack_BB (psid (channels s r)) (ssid (channels s r)) of
        Inl e \<Rightarrow> (Inl e, s)
      | Inr req \<Rightarrow>
          (case command D4Command_CloseChannel req s of
             (Inl e, s1) \<Rightarrow> (Inl e, s1)
           | (Inr res, s1) \<Rightarrow>
               (case psid (channels s1 r) of
                  None \<Rightarrow> (Inl KeyError, s1)
                | Some p \<Rightarrow>
                    (case open_channels s1 p of
                       None \<Rightarrow> (Inl KeyError, s1)
                     | Some r' \<Rightarrow> (Inr (), s1\<lparr>open_channels := (open_channels s1)(p := None)\<rparr>)))))"

definition Credit :: "nat \<Rightarrow> int \<Rightarrow> D4 \<Rightarrow> (error + unit) \<times> D4" where
  "Credit r amount s =
     (case pack_BBH (psid (channels s r)) (ssid (channels s r)) amount of
        Inl e \<Rightarrow> (Inl e, s)
      | Inr req \<Rightarrow>
          (case command D4Command_Credit req s of
             (Inl e, s1) \<Rightarrow> (Inl e, s1)
           | (Inr res, s1) \<Rightarrow> (Inr (), s1)))"

text \<open>
  \<open>CreditRequest\<close> adds the granted amount to the channel the table holds under
  \<open>channel.psid\<close>, which need not be \<open>channel\<close> itself.
\<close>

definition CreditRequest :: "nat \<Rightarrow> int \<Rightarrow> D4 \<Rightarrow> (error + int) \<times> D4" where
  "CreditRequest r amount s =
     (case pack_BBH (psid (channels s r)) (ssid (channels s r)) amount of
        Inl e \<Rightarrow> (Inl e, s)
      | Inr req \<Rightarrow>
          (case command D4Command_CreditRequest req s of
             (Inl e, s1) \<Rightarrow> (Inl e, s1)
           | (Inr resp, s1) \<Rightarrow>
               (case unpack_BBH resp of
                  Inl e \<Rightarrow> (Inl e, s1)
                | Inr (p', sid', granted) \<Rightarrow>
                    (case psid (channels s1 r) of
                       None \<Rightarrow> (Inl KeyError, s1)
                     | Some p \<Rightarrow>
                         (case open_channels s1 p of
                            None \<Rightarrow> (Inl KeyError, s1)
                          | Some r' \<Rightarrow>
                              (Inr granted,
                               record_event (Granted r' granted)
                                 (update_channel r'
                                    (\<lambda>c. c\<lparr>tx_credits := tx_credits c + granted\<rparr>) s1)))))))"

text \<open>\<open>D4.channel\<close>: a new channel object for the socket id of \<open>name\<close>; the result is its reference.\<close>

definition channel :: "string \<Rightarrow> D4 \<Rightarrow> (error + nat) \<times> D4" where
  "channel name s =
     (case GetSocketID name s of
        (Inl e, s1) \<Rightarrow> (Inl e, s1)
      | (Inr sid, s1) \<Rightarrow>
          (Inr (allocated s1),
           s1\<lparr>channels := (channels s1)(allocated s1 := D4Channel_init sid),
               allocated := Suc (allocated s1)\<rparr>))"

subsection \<open>Termination measure of the credit and write loops\<close>

text \<open>
  A command that completes either takes a packet from the queue of channel 0 or reads at
  least one frame from the transport, so the number of inbound bytes left plus the length
  of that queue drops.
\<close>

definition pending :: "nat \<Rightarrow> D4 \<Rightarrow> nat" where
  "pending r s = length (inbound (transport s)) + length (rx_queue (channels s r))"

definition pending0 :: "D4 \<Rightarrow> nat" where
  "pending0 s = (case open_channels s 0 of None \<Rightarrow> 0 | Some r0 \<Rightarrow> pending r0 s)"

lemma read_next_packet_pending:
  assumes "read_next_packet s = (Inr u, s')"
  shows "pending r s' + 5 \<le> pending r s \<and> open_channels s' = open_channels s"
proof -
  from assms obtain header_data t1 h len pl t2 where
    r1: "transport_read 6 (transport s) = (Inr header_data, t1)"
    and r2: "transport_read len t1 = (Inr pl, t2)"
    and s': "transport s' = t2"
    and q: "length (rx_queue (channels s' r)) \<le> Suc (length (rx_queue (channels s r)))"
    and o: "open_channels s' = open_channels s"
    by (auto simp: read_next_packet_def update_channel_def record_event_def
        split: prod.splits sum.splits option.splits)
  from transport_read_inbound [OF r1] transport_read_inbound [OF r2] s' q o
  show ?thesis by (auto simp: pending_def)
qed

lemma read_packet_pending:
  "read_packet r s = (Inr packet, s')
     \<Longrightarrow> pending r s' < pending r s \<and> open_channels s' = open_channels s"
proof (induction r s rule: read_packet.induct)
  case (1 r s)
  show ?case
  proof (cases "rx_queue (channels s r)")
    case Nil
    with "1.prems" obtain u s1 where
      n: "read_next_packet s = (Inr u, s1)" and p: "read_packet r s1 = (Inr packet, s')"
      by (subst (asm) read_packet.simps) (auto split: prod.splits sum.splits)
    from "1.IH" [OF Nil n [symmetric] refl p] read_next_packet_pending [OF n, of r]
    show ?thesis by simp
  next
    case (Cons a q)
    with "1.prems" show ?thesis
      by (subst (asm) read_packet.simps) (auto simp: pending_def update_channel_def)
  qed
qed

lemma write_packet_pending:
  "write_packet r packet s = (res, s')
     \<Longrightarrow> pending r' s' = pending r' s \<and> open_channels s' = open_channels s"
  by (auto simp: write_packet_def pending_def update_channel_def record_event_def
      transport_write_def split: sum.splits)

lemma command_pending0:
  assumes "command cmd pl s = (Inr out, s')"
  shows "pending0 s' < pending0 s" and "open_channels s' = open_channels s"
proof -
  from assms obtain r0 u s1 res where
    r0: "open_channels s 0 = Some r0"
    and w: "write_packet r0 (command_packet cmd pl) s = (Inr u, s1)"
    and r: "read_packet r0 s1 = (Inr res, s')"
    by (auto simp: command_def split: option.splits if_splits prod.splits sum.splits)
  from write_packet_pending [OF w, of r0] read_packet_pending [OF r] r0
  show "pending0 s' < pending0 s" and "open_channels s' = open_channels s"
    by (simp_all add: pending0_def)
qed

lemma CreditRequest_pending0:
  assumes "CreditRequest r amount s = (Inr granted, s')"
  shows "pending0 s' < pending0 s"
proof -
  from assms obtain req resp s1 where
    c: "command D4Command_CreditRequest req s = (Inr resp, s1)"
    and p: "pending0 s' = pending0 s1"
    by (auto simp: CreditRequest_def pending0_def pending_def update_channel_def
        record_event_def
        split: option.splits if_splits prod.splits sum.splits)
  from command_pending0 [OF c] p show ?thesis by simp
qed

subsection \<open>D4Channel: write and read\<close>

text \<open>\<open>_ensure_credit\<close>: the loop \<open>while self.d4.CreditRequest(self) < 1\<close>, then its guard.\<close>

function CreditRequest_loop :: "nat \<Rightarrow> D4 \<Rightarrow> (error + unit) \<times> D4" where
  "CreditRequest_loop r s =
     (case CreditRequest r 0xFFFF s of
        (Inl e, s') \<Rightarrow> (Inl e, s')
      | (Inr granted, s') \<Rightarrow> if granted < 1 then CreditRequest_loop r s' else (Inr (), s'))"
  by pat_completeness auto
termination
proof (relation "measure (\<lambda>(r, s). pending0 s)", goal_cases)
  case 1
  show ?case by simp
next
  case (2 r s x1 x2 granted)
  then have "CreditRequest r 0xFFFF s = (Inr granted, x2)" by simp
  from CreditRequest_pending0 [OF this] show ?case by simp
qed

declare CreditRequest_loop.simps [simp del]

definition ensure_credit :: "nat \<Rightarrow> D4 \<Rightarrow> (error + unit) \<times> D4" where
  "ensure_credit r s =
     (if tx_credits (channels s r) < 1 then CreditRequest_loop r s else (Inr (), s))"

text \<open>The slice \<open>data[:k]\<close> for an integer \<open>k\<close>: a negative \<open>k\<close> counts from the end.\<close>

definition slice_to :: "int \<Rightarrow> bytes \<Rightarrow> bytes" where
  "slice_to k data = (if 0 \<le> k then take (nat k) data else take (length data - nat (- k)) data)"

text \<open>
  One iteration of the loop of \<open>D4Channel.write\<close>, for non-empty \<open>data\<close>; the result is
  the data left. \<open>self.mtu - 6\<close> raises \<open>TypeError\<close> on a channel that was never opened.
  The optional \<open>progress\<close> callback is left out.
\<close>

definition write_fragment :: "nat \<Rightarrow> bytes \<Rightarrow> D4 \<Rightarrow> (error + bytes) \<times> D4" where
  "write_fragment r data s =
     (case mtu (channels s r) of
        None \<Rightarrow> (Inl TypeError, s)
      | Some m \<Rightarrow>
          (let pl = (if int (length data) > m - 6 then slice_to (m - 6) data else data);
               data' = drop (length pl) data;
               cr = min (rx_credits_max (channels s r) - rx_credits (channels s r)) 0xFF;
               packet = D4Packet (psid (channels s r)) (ssid (channels s r)) cr 2 pl;
               s1 = update_channel r (\<lambda>c. c\<lparr>rx_credits := rx_credits c + cr\<rparr>) s
           in (case ensure_credit r s1 of
                 (Inl e, s2) \<Rightarrow> (Inl e, s2)
               | (Inr u, s2) \<Rightarrow>
                   (case write_packet r packet s2 of
                      (Inl e, s3) \<Rightarrow> (Inl e, s3)
                    | (Inr u', s3) \<Rightarrow> (Inr data', s3)))))"

lemma CreditRequest_loop_pending0:
  "CreditRequest_loop r s = (Inr u, s') \<Longrightarrow> pending0 s' < pending0 s"
proof (induction r s rule: CreditRequest_loop.induct)
  case (1 r s)
  from "1.prems" obtain granted s1 where
    c: "CreditRequest r 0xFFFF s = (Inr granted, s1)"
    and rest: "if granted < 1 then CreditRequest_loop r s1 = (Inr u, s') else s' = s1"
    by (subst (asm) CreditRequest_loop.simps) (auto split: prod.splits sum.splits if_splits)
  show ?case
  proof (cases "granted < 1")
    case True
    with rest "1.IH" [OF c [symmetric] refl True] CreditRequest_pending0 [OF c]
    show ?thesis by simp
  next
    case False
    with rest CreditRequest_pending0 [OF c] show ?thesis by simp
  qed
qed

lemma write_fragment_measure:
  assumes "write_fragment r data s = (Inr data', s')"
  shows "pending0 s' < pending0 s
     \<or> pending0 s' = pending0 s
        \<and> nat (tx_credits (channels s' r)) < nat (tx_credits (channels s r))"
proof -
  from assms obtain m cr packet s2 u u' where
    e: "ensure_credit r (update_channel r (\<lambda>c. c\<lparr>rx_credits := rx_credits c + cr\<rparr>) s) = (Inr u, s2)"
    and w: "write_packet r packet s2 = (Inr u', s')"
    by (auto simp: write_fragment_def Let_def split: option.splits prod.splits sum.splits)
  let ?s1 = "update_channel r (\<lambda>c. c\<lparr>rx_credits := rx_credits c + cr\<rparr>) s"
  have p1: "pending0 ?s1 = pending0 s" "tx_credits (channels ?s1 r) = tx_credits (channels s r)"
    by (auto simp: pending0_def pending_def update_channel_def split: option.splits)
  from w have p3: "pending0 s' = pending0 s2"
    "tx_credits (channels s' r) = tx_credits (channels s2 r) - 1"
    by (auto simp: write_packet_def pending0_def pending_def update_channel_def
        record_event_def transport_write_def split: sum.splits option.splits)
  show ?thesis
  proof (cases "tx_credits (channels ?s1 r) < 1")
    case True
    with e have "CreditRequest_loop r ?s1 = (Inr u, s2)" by (simp add: ensure_credit_def)
    from CreditRequest_loop_pending0 [OF this] p1 p3 show ?thesis by simp
  next
    case False
    with e have "s2 = ?s1" by (simp add: ensure_credit_def)
    with False p1 p3 show ?thesis by simp
  qed
qed

function D4Channel_write :: "nat \<Rightarrow> bytes \<Rightarrow> D4 \<Rightarrow> (error + unit) \<times> D4" where
  "D4Channel_write r data s =
     (if data = [] then (Inr (), s)
      else
        (case write_fragment r data s of
           (Inl e, s') \<Rightarrow> (Inl e, s')
         | (Inr data', s') \<Rightarrow> D4Channel_write r data' s'))"
  by pat_completeness auto
termination
proof (relation "(\<lambda>(r, data, s). pending0 s) <*mlex*>
                 measure (\<lambda>(r, data, s). nat (tx_credits (channels s r)))", goal_cases)
  case 1
  show ?case by (simp add: wf_mlex)
next
  case (2 r data s x1 x2 data')
  then have "write_fragment r data s = (Inr data', x2)" by simp
  from write_fragment_measure [OF this] show ?case
    by (auto simp: mlex_iff)
qed

declare D4Channel_write.simps [simp del]

text \<open>\<open>D4Channel.read\<close>.\<close>

definition D4Channel_read :: "nat \<Rightarrow> D4 \<Rightarrow> (error + D4Packet) \<times> D4" where
  "D4Channel_read r s =
     (let cr = rx_credits_max (channels s r) - rx_credits (channels s r) in
      if cr > 0xFF then
        (case Credit r cr s of
           (Inl e, s1) \<Rightarrow> (Inl e, s1)
         | (Inr u, s1) \<Rightarrow>
             read_packet r (update_channel r (\<lambda>c. c\<lparr>rx_credits := rx_credits c + cr\<rparr>) s1))
      else read_packet r s)"

text \<open>\<open>D4Channel.__enter__\<close> and \<open>D4Channel.__exit__\<close>.\<close>

definition D4Channel_enter :: "nat \<Rightarrow> D4 \<Rightarrow> (error + unit) \<times> D4" where
  "D4Channel_enter r s =
     (case OpenChannel r s of
        (Inl e, s1) \<Rightarrow> (Inl e, s1)
      | (Inr u, s1) \<Rightarrow>
          (case Credit r (rx_credits_max (channels s1 r)) s1 of
             (Inl e, s2) \<Rightarrow> (Inl e, s2)
           | (Inr u', s2) \<Rightarrow>
               (Inr (),
                update_channel r
                  (\<lambda>c. c\<lparr>rx_credits := rx_credits c + rx_credits_max c\<rparr>) s2)))"

definition D4Channel_exit :: "nat \<Rightarrow> D4 \<Rightarrow> (error + unit) \<times> D4" where
  "D4Channel_exit r s = CloseChannel r s"

subsection \<open>Construction of the engine and the D4 control backend\<close>

definition mode_escape :: bytes where
  "mode_escape =
     [0x00, 0x00, 0x00, 0x1B, 0x01,
      0x40, 0x45, 0x4A, 0x4C, 0x20, 0x31, 0x32, 0x38, 0x34, 0x2E, 0x34, 0x0A,
      0x40, 0x45, 0x4A, 0x4C, 0x0A, 0x40, 0x45, 0x4A, 0x4C, 0x0A]"

text \<open>
  \<open>D4.__init__\<close>: channel 0 is the object at reference 0. An exception leaves no engine,
  so the error case carries no state.
\<close>

definition D4_init :: "Transport \<Rightarrow> error + D4" where
  "D4_init t =
     (let s0 = \<lparr>transport = transport_write mode_escape (transport_drain t),
                channels = (\<lambda>r. D4Channel_init 0x00)(0 := (D4Channel_init 0x00)\<lparr>tx_credits := 1\<rparr>),
                allocated = 1,
                open_channels = [0x00 \<mapsto> 0],
                history = []\<rparr>
      in (case transport_read 8 (transport s0) of
            (Inl e, t1) \<Rightarrow> Inl e
          | (Inr reply, t1) \<Rightarrow>
              (case Init (s0\<lparr>transport := t1\<rparr>) of
                 (Inl e, s1) \<Rightarrow> Inl e
               | (Inr u, s1) \<Rightarrow> Inr s1)))"

text \<open>
  \<open>D4ControlBackend\<close>: \<open>__enter__\<close> gives the engine and the reference of the opened
  \<open>EPSON-CTRL\<close> channel; \<open>send\<close> is a \<open>ControlBackend\<close> over that pair.
\<close>

definition D4ControlBackend_enter :: "Transport \<Rightarrow> error + D4 \<times> nat" where
  "D4ControlBackend_enter t =
     (case D4_init t of
        Inl e \<Rightarrow> Inl e
      | Inr s \<Rightarrow>
          (case channel ''EPSON-CTRL'' s of
             (Inl e, s1) \<Rightarrow> Inl e
           | (Inr r, s1) \<Rightarrow>
               (case D4Channel_enter r s1 of
                  (Inl e, s2) \<Rightarrow> Inl e
                | (Inr u, s2) \<Rightarrow> Inr (s2, r))))"

definition D4ControlBackend_send :: "(D4 \<times> nat) ControlBackend" where
  "D4ControlBackend_send cmd b =
     (case b of (s, r) \<Rightarrow>
        (case D4Channel_write r cmd s of
           (Inl e, s1) \<Rightarrow> (Inl e, (s1, r))
         | (Inr u, s1) \<Rightarrow>
             (case D4Channel_read r s1 of
                (Inl e, s2) \<Rightarrow> (Inl e, (s2, r))
              | (Inr res, s2) \<Rightarrow> (Inr (payload res), (s2, r)))))"

subsection \<open>Accounting over the history, and sequences of channel operations\<close>

text \<open>
  What the history says about one channel object: the sum of the credit fields of the
  packets received on it, the number of packets sent on it, and the sum of the amounts
  \<open>CreditRequest\<close> added to it.
\<close>

fun credit_received :: "nat \<Rightarrow> event \<Rightarrow> int" where
  "credit_received r (Received r' packet) = (if r' = r then credit packet else 0)"
| "credit_received r ev = 0"

fun packet_sent :: "nat \<Rightarrow> event \<Rightarrow> int" where
  "packet_sent r (Sent r' packet) = (if r' = r then 1 else 0)"
| "packet_sent r ev = 0"

fun credit_granted :: "nat \<Rightarrow> event \<Rightarrow> int" where
  "credit_granted r (Granted r' amount) = (if r' = r then amount else 0)"
| "credit_granted r ev = 0"

definition credits_received :: "nat \<Rightarrow> D4 \<Rightarrow> int" where
  "credits_received r s = sum_list (map (credit_received r) (history s))"

definition packets_sent :: "nat \<Rightarrow> D4 \<Rightarrow> int" where
  "packets_sent r s = sum_list (map (packet_sent r) (history s))"

definition credits_granted :: "nat \<Rightarrow> D4 \<Rightarrow> int" where
  "credits_granted r s = sum_list (map (credit_granted r) (history s))"

text \<open>
  A finite interleaving of channel writes and channel reads; an operation that raises
  leaves its state to the next one.
\<close>

datatype channel_op = Write nat bytes | Read nat

fun run_op :: "channel_op \<Rightarrow> D4 \<Rightarrow> D4" where
  "run_op (Write r data) s = snd (D4Channel_write r data s)"
| "run_op (Read r) s = snd (D4Channel_read r s)"

fun run_ops :: "channel_op list \<Rightarrow> D4 \<Rightarrow> D4" where
  "run_ops [] s = s"
| "run_ops (op # ops) s = run_ops ops (run_op op s)"

text \<open>The quantity the engine conserves for every channel object.\<close>

definition balance :: "nat \<Rightarrow> D4 \<Rightarrow> int" where
  "balance r s = tx_credits (channels s r) - credits_received r s - credits_granted r s
                   + packets_sent r s"

subsection \<open>What the operations leave alone, and the credit invariant\<close>

text \<open>The packets sent on a channel object, in order, according to the history.\<close>

fun sent_packets :: "nat \<Rightarrow> event list \<Rightarrow> D4Packet list" where
  "sent_packets r [] = []"
| "sent_packets r (Sent r' packet # evs) =
     (if r' = r then packet # sent_packets r evs else sent_packets r evs)"
| "sent_packets r (ev # evs) = sent_packets r evs"

text \<open>
  \<open>steady s s'\<close>: from \<open>s\<close> to \<open>s'\<close> the table and the number of objects are the same,
  no channel changed its \<open>ssid\<close>, \<open>psid\<close>, \<open>mtu\<close> or \<open>rx_credits_max\<close>, no \<open>rx_credits\<close>
  went up, and nothing was sent on a channel other than the one registered as channel 0.
\<close>

definition steady :: "D4 \<Rightarrow> D4 \<Rightarrow> bool" where
  "steady s s' \<longleftrightarrow>
     open_channels s' = open_channels s \<and> allocated s' = allocated s
     \<and> (\<forall>r. ssid (channels s' r) = ssid (channels s r)
            \<and> psid (channels s' r) = psid (channels s r)
            \<and> mtu (channels s' r) = mtu (channels s r)
            \<and> rx_credits_max (channels s' r) = rx_credits_max (channels s r)
            \<and> rx_credits (channels s' r) \<le> rx_credits (channels s r)
            \<and> (open_channels s 0 \<noteq> Some r
                 \<longrightarrow> sent_packets r (history s') = sent_packets r (history s)))"

text \<open>
  The invariant of the table: every registered channel object exists, has
  \<open>tx_credits \<ge> 0\<close> and \<open>rx_credits \<le> rx_credits_max\<close>, and is registered under its own
  \<open>psid\<close> when it has one.
\<close>

definition table_ok :: "D4 \<Rightarrow> bool" where
  "table_ok s \<longleftrightarrow>
     (\<forall>p r. open_channels s p = Some r \<longrightarrow>
        r < allocated s
        \<and> 0 \<le> tx_credits (channels s r)
        \<and> rx_credits (channels s r) \<le> rx_credits_max (channels s r)
        \<and> (psid (channels s r) = None \<or> psid (channels s r) = Some p))"

text \<open>
  \<open>self.d4.channel(name).__enter__()\<close>, as \<open>D4ControlBackend.__enter__\<close> opens its channel.
\<close>

definition open_named :: "string \<Rightarrow> D4 \<Rightarrow> (error + nat) \<times> D4" where
  "open_named name s =
     (case channel name s of
        (Inl e, s1) \<Rightarrow> (Inl e, s1)
      | (Inr r, s1) \<Rightarrow>
          (case D4Channel_enter r s1 of
             (Inl e, s2) \<Rightarrow> (Inl e, s2)
           | (Inr u, s2) \<Rightarrow> (Inr r, s2)))"

text \<open>
  The states an engine reaches: built by \<open>D4.__init__\<close>, then any sequence of channel
  openings, closings, writes and reads and of the commands \<open>GetSocketID\<close>, \<open>Credit\<close> and
  \<open>CreditRequest\<close>, each taken with the state it leaves, whether it returns or raises.
\<close>

inductive reachable :: "D4 \<Rightarrow> bool" where
  reach_init: "D4_init t = Inr s \<Longrightarrow> reachable s"
| reach_open: "reachable s \<Longrightarrow> reachable (snd (open_named name s))"
| reach_close: "reachable s \<Longrightarrow> reachable (snd (D4Channel_exit r s))"
| reach_write: "reachable s \<Longrightarrow> reachable (snd (D4Channel_write r data s))"
| reach_read: "reachable s \<Longrightarrow> reachable (snd (D4Channel_read r s))"
| reach_socket_id: "reachable s \<Longrightarrow> reachable (snd (GetSocketID name s))"
| reach_credit: "reachable s \<Longrightarrow> reachable (snd (Credit r amount s))"
| reach_credit_request: "reachable s \<Longrightarrow> reachable (snd (CreditRequest r amount s))"

subsection \<open>A scripted exchange\<close>

text \<open>
  The device's side of a session, every frame with a well-formed header: eight bytes
  after the mode escape, the replies to \<open>Init\<close>, \<open>GetSocketID\<close> (socket 2), \<open>OpenChannel\<close>
  (psid 2, mtu 64, no initial credit), \<open>Credit\<close> and \<open>CreditRequest\<close> (one credit
  granted), and one data packet on the opened channel. In \<open>frugal_transport\<close> the reply
  to \<open>Init\<close> carries no credit.
\<close>

definition example_transport :: Transport where
  "example_transport =
     \<lparr>inbound = [0, 0, 0, 0, 0, 0, 0, 0,
                 0, 0, 0, 9, 1, 0, 0x80, 0, 0x10,
                 0, 0, 0, 9, 1, 0, 0x89, 0, 2,
                 0, 0, 0, 16, 1, 0, 0x81, 0, 2, 2, 0, 64, 0, 1, 0, 0,
                 0, 0, 0, 10, 1, 0, 0x83, 0, 2, 2,
                 0, 0, 0, 12, 1, 0, 0x84, 0, 2, 2, 0, 1,
                 2, 2, 0, 8, 1, 0, 0x55, 0x66],
      outbound = []\<rparr>"

definition frugal_transport :: Transport where
  "frugal_transport =
     \<lparr>inbound = [0, 0, 0, 0, 0, 0, 0, 0,
                 0, 0, 0, 9, 0, 0, 0x80, 0, 0x10],
      outbound = []\<rparr>"

text \<open>The engine right after its construction, and after the control backend opened its channel.\<close>

definition constructed :: D4 where
  "constructed = projr (D4_init example_transport)"

definition entered :: D4 where
  "entered = fst (projr (D4ControlBackend_enter example_transport))"

text \<open>
  Two more sessions. In \<open>roomy_transport\<close> the channel is opened with mtu 8 and one initial
  credit, and \<open>CreditRequest\<close> grants two more; in \<open>tight_transport\<close> the channel is opened
  with mtu 6 and two initial credits, and the device sends nothing after the handshake.
\<close>

definition roomy_transport :: Transport where
  "roomy_transport =
     \<lparr>inbound = [0, 0, 0, 0, 0, 0, 0, 0,
                 0, 0, 0, 9, 1, 0, 0x80, 0, 0x10,
                 0, 0, 0, 9, 1, 0, 0x89, 0, 2,
                 0, 0, 0, 16, 1, 0, 0x81, 0, 2, 2, 0, 8, 0, 1, 0, 1,
                 0, 0, 0, 10, 1, 0, 0x83, 0, 2, 2,
                 0, 0, 0, 12, 1, 0, 0x84, 0, 2, 2, 0, 2],
      outbound = []\<rparr>"

definition tight_transport :: Transport where
  "tight_transport =
     \<lparr>inbound = [0, 0, 0, 0, 0, 0, 0, 0,
                 0, 0, 0, 9, 1, 0, 0x80, 0, 0x10,
                 0, 0, 0, 9, 1, 0, 0x89, 0, 2,
                 0, 0, 0, 16, 1, 0, 0x81, 0, 2, 2, 0, 6, 0, 1, 0, 2,
                 0, 0, 0, 10, 1, 0, 0x83, 0, 2, 2],
      outbound = []\<rparr>"

definition entered_roomy :: D4 where
  "entered_roomy = fst (projr (D4ControlBackend_enter roomy_transport))"

definition entered_tight :: D4 where
  "entered_tight = fst (projr (D4ControlBackend_enter tight_transport))"

subsection \<open>Fragments\<close>

text \<open>
  The claim's words, not the code: a byte string cut into consecutive pieces of \<open>n\<close>
  bytes, the last one possibly shorter.
\<close>

function chunks :: "nat \<Rightarrow> 'a list \<Rightarrow> 'a list list" where
  "chunks n xs = (if xs = [] \<or> n = 0 then [] else take n xs # chunks n (drop n xs))"
  by pat_completeness auto
termination
  by (relation "measure (\<lambda>(n, xs). length xs)") auto

declare chunks.simps [simp del]

section \<open>The engine, case by case\<close>

text \<open>
  What an operation returned and which steps it ran, read off its definition; and, for
  the loops, that a property of the state kept by every step is kept by the loop.
\<close>

lemma write_packet_cases:
  assumes "write_packet r packet s = (res, s')"
  obtains (fail) "res = Inl StructError" "s' = s"
  | (sent) header where "res = Inr ()"
      "pack_BBHBB (D4Packet.psid packet) (D4Packet.ssid packet)
          (6 + int (length (payload packet))) (credit packet) (control packet) = Inr header"
      "s' = record_event (Sent r packet)
             (update_channel r (\<lambda>c. c\<lparr>tx_credits := tx_credits c - 1\<rparr>)
                (s\<lparr>transport := transport_write (header @ payload packet) (transport s)\<rparr>))"
proof (cases "pack_BBHBB (D4Packet.psid packet) (D4Packet.ssid packet)
          (6 + int (length (payload packet))) (credit packet) (control packet)")
  case (Inl e)
  then have "e = StructError"
    by (auto simp: pack_BBHBB_def split: option.splits if_splits)
  with Inl assms fail show ?thesis by (simp add: write_packet_def)
next
  case (Inr header)
  with assms sent show ?thesis by (simp add: write_packet_def)
qed

lemma read_packet_rule:
  assumes "Q s"
    and "\<And>s. Q s \<Longrightarrow> Q (snd (read_next_packet s))"
    and "\<And>s q. Q s \<Longrightarrow> Q (update_channel r (\<lambda>c. c\<lparr>rx_queue := q\<rparr>) s)"
  shows "Q (snd (read_packet r s))"
proof -
  have "(\<forall>s q. Q s \<longrightarrow> Q (update_channel r (\<lambda>c. c\<lparr>rx_queue := q\<rparr>) s)) \<Longrightarrow> Q s
          \<Longrightarrow> Q (snd (read_packet r s))"
  proof (induction r s rule: read_packet.induct)
    case (1 r s)
    show ?case
    proof (cases "rx_queue (channels s r)")
      case Nil
      obtain res s1 where n: "read_next_packet s = (res, s1)" by (cases "read_next_packet s")
      from assms(2) [OF "1.prems"(2)] n have q1: "Q s1" by simp
      show ?thesis
      proof (cases res)
        case (Inl e)
        with Nil n q1 show ?thesis by (subst read_packet.simps) simp
      next
        case (Inr u)
        from "1.IH" [OF Nil n [symmetric] Inr "1.prems"(1) q1] Inr Nil n show ?thesis
          by (subst read_packet.simps) simp
      qed
    next
      case (Cons a q)
      with "1.prems" show ?thesis
        by (subst read_packet.simps) simp
    qed
  qed
  with assms(1,3) show ?thesis by blast
qed

lemma command_cases:
  assumes "command cmd pl s = (res, s')"
  obtains (fail) e where "res = Inl e" "s' = s"
  | (sent) r0 s1 res2 where "open_channels s 0 = Some r0"
      "cmd \<in> {D4Command_Init, D4Command_Exit} \<or> tx_credits (channels s r0) \<noteq> 0"
      "write_packet r0 (command_packet cmd pl) s = (Inr (), s1)"
      "read_packet r0 s1 = (res2, s')"
      "res = (case res2 of Inl e \<Rightarrow> Inl e | Inr p \<Rightarrow> check_reply cmd p)"
proof (cases "open_channels s 0")
  case None
  with assms have "res = Inl KeyError" "s' = s" by (auto simp: command_def)
  with fail show ?thesis .
next
  case (Some r0)
  show ?thesis
  proof (cases "cmd \<notin> {D4Command_Init, D4Command_Exit} \<and> tx_credits (channels s r0) = 0")
    case True
    from assms have "res = Inl AssertionError \<and> s' = s"
      unfolding command_def Some option.case if_P [OF True] by simp
    with fail show ?thesis by blast
  next
    case False
    obtain res1 s1 where w: "write_packet r0 (command_packet cmd pl) s = (res1, s1)"
      by (cases "write_packet r0 (command_packet cmd pl) s")
    from False have ctx: "cmd \<in> {D4Command_Init, D4Command_Exit} \<or> tx_credits (channels s r0) \<noteq> 0"
      by blast
    show ?thesis
    proof (cases res1)
      case (Inl e)
      with w have "s1 = s" by (auto elim: write_packet_cases)
      with assms Inl w have "res = Inl e \<and> s' = s"
        unfolding command_def Some option.case if_not_P [OF False] by simp
      with fail show ?thesis by blast
    next
      case (Inr u)
      obtain res2 s2 where rd: "read_packet r0 s1 = (res2, s2)"
        by (cases "read_packet r0 s1")
      from assms Inr w rd
      have "res = (case res2 of Inl e \<Rightarrow> Inl e | Inr p \<Rightarrow> check_reply cmd p) \<and> s' = s2"
        unfolding command_def Some option.case if_not_P [OF False]
        by (cases res2; cases "check_reply cmd (projr res2)") auto
      with sent [OF Some ctx, of s1 res2] w Inr rd show ?thesis by simp
    qed
  qed
qed


lemma unpack_BBH_nonneg:
  "unpack_BBH bs = Inr (a, b, c) \<Longrightarrow> 0 \<le> c"
  by (auto simp: unpack_BBH_def split: list.splits)

lemma Credit_cases:
  assumes "Credit r amount s = (res, s')"
  obtains (fail) e where "res = Inl e" "s' = s"
  | (sent) req resc where "command D4Command_Credit req s = (resc, s')"
  using assms
  by (auto simp: Credit_def split: sum.splits prod.splits)

lemma CreditRequest_cases:
  assumes "CreditRequest r amount s = (res, s')"
  obtains (fail) e where "res = Inl e" "s' = s"
  | (stopped) req resc e where "command D4Command_CreditRequest req s = (resc, s')" "res = Inl e"
  | (granted) req resp s1 p r' g where
      "command D4Command_CreditRequest req s = (Inr resp, s1)"
      "psid (channels s1 r) = Some p" "open_channels s1 p = Some r'" "0 \<le> g" "res = Inr g"
      "s' = record_event (Granted r' g)
              (update_channel r' (\<lambda>c. c\<lparr>tx_credits := tx_credits c + g\<rparr>) s1)"
  using assms
  by (auto simp: CreditRequest_def dest: unpack_BBH_nonneg
      split: sum.splits prod.splits option.splits)

lemma CreditRequest_loop_rule:
  assumes "Q s"
    and "\<And>s. Q s \<Longrightarrow> Q (snd (CreditRequest r 0xFFFF s))"
  shows "Q (snd (CreditRequest_loop r s))"
proof -
  have "(\<forall>s. Q s \<longrightarrow> Q (snd (CreditRequest r 0xFFFF s))) \<Longrightarrow> Q s
          \<Longrightarrow> Q (snd (CreditRequest_loop r s))"
  proof (induction r s rule: CreditRequest_loop.induct)
    case (1 r s)
    obtain res s1 where c: "CreditRequest r 0xFFFF s = (res, s1)"
      by (cases "CreditRequest r 0xFFFF s")
    from "1.prems"(1) [rule_format, OF "1.prems"(2)] c have q1: "Q s1" by simp
    show ?case
    proof (cases res)
      case (Inl e)
      with c q1 show ?thesis by (subst CreditRequest_loop.simps) simp
    next
      case (Inr g)
      show ?thesis
      proof (cases "g < 1")
        case True
        from "1.IH" [OF c [symmetric] Inr True "1.prems"(1) q1] Inr c True show ?thesis
          by (subst CreditRequest_loop.simps) simp
      next
        case False
        with Inr c q1 show ?thesis by (subst CreditRequest_loop.simps) simp
      qed
    qed
  qed
  with assms show ?thesis by blast
qed

lemma CreditRequest_loop_last:
  assumes "CreditRequest_loop r s = (Inr u, s')" and "Q s"
    and "\<And>s. Q s \<Longrightarrow> Q (snd (CreditRequest r 0xFFFF s))"
  shows "\<exists>s0 g. Q s0 \<and> CreditRequest r 0xFFFF s0 = (Inr g, s') \<and> 1 \<le> g"
proof -
  have "(\<forall>s. Q s \<longrightarrow> Q (snd (CreditRequest r 0xFFFF s))) \<Longrightarrow> Q s
          \<Longrightarrow> CreditRequest_loop r s = (Inr u, s')
          \<Longrightarrow> \<exists>s0 g. Q s0 \<and> CreditRequest r 0xFFFF s0 = (Inr g, s') \<and> 1 \<le> g"
  proof (induction r s rule: CreditRequest_loop.induct)
    case (1 r s)
    obtain res s1 where c: "CreditRequest r 0xFFFF s = (res, s1)"
      by (cases "CreditRequest r 0xFFFF s")
    from "1.prems"(1) [rule_format, OF "1.prems"(2)] c have q1: "Q s1" by simp
    show ?case
    proof (cases res)
      case (Inl e)
      with c "1.prems"(3) show ?thesis by (subst (asm) CreditRequest_loop.simps) simp
    next
      case (Inr g)
      show ?thesis
      proof (cases "g < 1")
        case True
        with Inr c "1.prems"(3) have "CreditRequest_loop r s1 = (Inr u, s')"
          by (subst (asm) CreditRequest_loop.simps) simp
        from "1.IH" [OF c [symmetric] Inr True "1.prems"(1) q1 this] show ?thesis .
      next
        case False
        with Inr c "1.prems"(3) have "s' = s1"
          by (subst (asm) CreditRequest_loop.simps) simp
        with False Inr c "1.prems"(2) show ?thesis by auto
      qed
    qed
  qed
  with assms show ?thesis by blast
qed

lemma write_fragment_cases:
  assumes "write_fragment r data s = (res, s')"
  obtains (untyped) "mtu (channels s r) = None" "res = Inl TypeError" "s' = s"
  | (nocredit) m e where "mtu (channels s r) = Some m" "res = Inl e"
      "ensure_credit r
         (update_channel r
            (\<lambda>c. c\<lparr>rx_credits := rx_credits c
                      + min (rx_credits_max (channels s r) - rx_credits (channels s r)) 0xFF\<rparr>) s)
         = (Inl e, s')"
  | (written) m s2 resw where "mtu (channels s r) = Some m"
      "ensure_credit r
         (update_channel r
            (\<lambda>c. c\<lparr>rx_credits := rx_credits c
                      + min (rx_credits_max (channels s r) - rx_credits (channels s r)) 0xFF\<rparr>) s)
         = (Inr (), s2)"
      "write_packet r
         (D4Packet (psid (channels s r)) (ssid (channels s r))
            (min (rx_credits_max (channels s r) - rx_credits (channels s r)) 0xFF) 2
            (if int (length data) > m - 6 then slice_to (m - 6) data else data)) s2 = (resw, s')"
      "res = (case resw of Inl e \<Rightarrow> Inl e
              | Inr u \<Rightarrow> Inr (drop (length (if int (length data) > m - 6
                                                then slice_to (m - 6) data else data)) data))"
  using assms
  by (auto simp: write_fragment_def Let_def split: sum.splits prod.splits option.splits)

lemma D4Channel_write_rule:
  assumes "Q s"
    and "\<And>s data. Q s \<Longrightarrow> Q (snd (write_fragment r data s))"
  shows "Q (snd (D4Channel_write r data s))"
proof -
  have "(\<forall>s data. Q s \<longrightarrow> Q (snd (write_fragment r data s))) \<Longrightarrow> Q s
          \<Longrightarrow> Q (snd (D4Channel_write r data s))"
  proof (induction r data s rule: D4Channel_write.induct)
    case (1 r data s)
    show ?case
    proof (cases "data = []")
      case True
      with "1.prems" show ?thesis by (subst D4Channel_write.simps) simp
    next
      case False
      obtain res s1 where f: "write_fragment r data s = (res, s1)"
        by (cases "write_fragment r data s")
      from "1.prems"(1) [rule_format, OF "1.prems"(2), of data] f have q1: "Q s1" by simp
      show ?thesis
      proof (cases res)
        case (Inl e)
        with False f q1 show ?thesis by (subst D4Channel_write.simps) simp
      next
        case (Inr data')
        from "1.IH" [OF False f [symmetric] Inr "1.prems"(1) q1] Inr False f show ?thesis
          by (subst D4Channel_write.simps) simp
      qed
    qed
  qed
  with assms show ?thesis by blast
qed

lemma D4Channel_read_cases:
  assumes "D4Channel_read r s = (res, s')"
  obtains (plain) "rx_credits_max (channels s r) - rx_credits (channels s r) \<le> 0xFF"
      "read_packet r s = (res, s')"
  | (nocredit) e where "res = Inl e"
      "Credit r (rx_credits_max (channels s r) - rx_credits (channels s r)) s = (Inl e, s')"
  | (credited) s1 where
      "rx_credits_max (channels s r) - rx_credits (channels s r) > 0xFF"
      "Credit r (rx_credits_max (channels s r) - rx_credits (channels s r)) s = (Inr (), s1)"
      "read_packet r
         (update_channel r
            (\<lambda>c. c\<lparr>rx_credits := rx_credits c
                      + (rx_credits_max (channels s r) - rx_credits (channels s r))\<rparr>) s1)
         = (res, s')"
  using assms
  by (auto simp: D4Channel_read_def Let_def split: sum.splits prod.splits if_splits)

section \<open>Properties of the status TLV decoder\<close>

lemma parse_entries_no_error:
  "len + 2 \<le> length data \<Longrightarrow> snd (parse_entries data len index) = None"
proof (induction data len index rule: parse_entries.induct)
  case (1 data len index)
  show ?case
  proof (cases "index < len")
    case True
    with "1.prems" have a: "index < length data" "index + 1 < length data" by auto
    from "1.IH" [OF True a refl refl refl] "1.prems"
    have "snd (parse_entries data len (index + 2 + unat (data ! (index + 1)))) = None"
      by simp
    with True a show ?thesis
      by (subst parse_entries.simps) (simp add: Let_def)
  next
    case False
    then show ?thesis by (subst parse_entries.simps) simp
  qed
qed





text \<open>
  C6: \<open>ConsumableLevel.from_int\<close> maps 110 to (-1, MISSING), 105 to (-1, UNKNOWN), any
  other value below 0 or above 100 to (-1, FAIL), 0 to (0, EMPTY) and every value from 1
  to 100 to itself with OKAY; in particular 50 gives (50, OKAY) and 200 gives (-1, FAIL).
\<close>

theorem from_int_mapping:
  "(v = 110 \<longrightarrow> from_int v = \<lparr>level = -1, status = MISSING\<rparr>)
   \<and> (v = 105 \<longrightarrow> from_int v = \<lparr>level = -1, status = ConsumableStatus_UNKNOWN\<rparr>)
   \<and> (v \<noteq> 110 \<and> v \<noteq> 105 \<and> (v < 0 \<or> v > 100) \<longrightarrow> from_int v = \<lparr>level = -1, status = FAIL\<rparr>)
   \<and> (v = 0 \<longrightarrow> from_int v = \<lparr>level = 0, status = EMPTY\<rparr>)
   \<and> (1 \<le> v \<and> v \<le> 100 \<longrightarrow> from_int v = \<lparr>level = v, status = OKAY\<rparr>)
   \<and> from_int 50 = \<lparr>level = 50, status = OKAY\<rparr>
   \<and> from_int 200 = \<lparr>level = -1, status = FAIL\<rparr>"
  by (simp add: from_int_def)

theorem from_int_mapping_witness:
  "from_int 110 = \<lparr>level = -1, status = MISSING\<rparr>
   \<and> from_int 105 = \<lparr>level = -1, status = ConsumableStatus_UNKNOWN\<rparr>
   \<and> from_int (-3) = \<lparr>level = -1, status = FAIL\<rparr>
   \<and> from_int 101 = \<lparr>level = -1, status = FAIL\<rparr>
   \<and> from_int 0 = \<lparr>level = 0, status = EMPTY\<rparr>
   \<and> from_int 1 = \<lparr>level = 1, status = OKAY\<rparr>
   \<and> from_int 100 = \<lparr>level = 100, status = OKAY\<rparr>"
  using from_int_mapping [of 110] from_int_mapping [of 105] from_int_mapping [of "-3"]
    from_int_mapping [of 101] from_int_mapping [of 0] from_int_mapping [of 1]
    from_int_mapping [of 100]
  by simp

text \<open>
  C7: for every byte string, the decoder ends with the format error
  (\<open>ValueError\<close>, "Status payload length invalid") exactly when the length of the data
  differs from the little-endian length read from its first two bytes plus 2; when the
  lengths agree it raises nothing.
\<close>

theorem parse_status_struct_format_error:
  "(snd (parse_status_struct data) = Some (ValueError ''Status payload length invalid'')
      \<longleftrightarrow> length data \<noteq> from_bytes_little (take 2 data) + 2)
   \<and> (length data = from_bytes_little (take 2 data) + 2
      \<longrightarrow> snd (parse_status_struct data) = None)"
  by (simp add: parse_status_struct_def Let_def parse_entries_no_error)

theorem parse_status_struct_format_error_witness:
  "snd (parse_status_struct [5, 0, 1, 1, 4, 0, 0]) = None
   \<and> snd (parse_status_struct [5, 0, 1, 1, 4, 0])
       = Some (ValueError ''Status payload length invalid'')
   \<and> snd (parse_status_struct [7]) = Some (ValueError ''Status payload length invalid'')
   \<and> snd (parse_status_struct []) = Some (ValueError ''Status payload length invalid'')"
  using parse_status_struct_format_error [of "[5, 0, 1, 1, 4, 0, 0]"]
    parse_status_struct_format_error [of "[5, 0, 1, 1, 4, 0]"]
    parse_status_struct_format_error [of "[7]"]
    parse_status_struct_format_error [of "[]"]
  by simp




lemma from_bytes_entry_keeps:
  assumes "from_bytes_entry st e = Inr st'"
  shows "(fst e \<noteq> 0x01 \<longrightarrow> state st' = state st)
     \<and> (fst e \<noteq> 0x02 \<longrightarrow> error st' = error st)
     \<and> (fst e \<noteq> 0x06 \<longrightarrow> source st' = source st)
     \<and> (fst e \<noteq> 0x0F \<longrightarrow> levels st' = levels st)
     \<and> (fst e \<noteq> 0x0D \<longrightarrow> maintenance_box st' = maintenance_box st)
     \<and> (fst e \<noteq> 0x40 \<longrightarrow> serial st' = serial st)
     \<and> (\<forall>h. h \<noteq> fst e \<longrightarrow> other st' h = other st h)
     \<and> (fst e \<in> {0x01, 0x02, 0x06, 0x0D, 0x0F, 0x40} \<longrightarrow> other st' = other st)"
  using assms
  by (auto simp: from_bytes_entry_def Let_def split: prod.splits if_splits list.splits sum.splits)

lemma from_bytes_loop_keeps:
  assumes "from_bytes_loop st es = Inr st'"
  shows "(0x01 \<notin> fst ` set es \<longrightarrow> state st' = state st)
     \<and> (0x02 \<notin> fst ` set es \<longrightarrow> error st' = error st)
     \<and> (0x06 \<notin> fst ` set es \<longrightarrow> source st' = source st)
     \<and> (0x0F \<notin> fst ` set es \<longrightarrow> levels st' = levels st)
     \<and> (0x0D \<notin> fst ` set es \<longrightarrow> maintenance_box st' = maintenance_box st)
     \<and> (0x40 \<notin> fst ` set es \<longrightarrow> serial st' = serial st)
     \<and> (\<forall>h. h \<notin> fst ` set es \<longrightarrow> other st' h = other st h)
     \<and> (fst ` set es \<subseteq> {0x01, 0x02, 0x06, 0x0D, 0x0F, 0x40} \<longrightarrow> other st' = other st)"
  using assms
proof (induction es arbitrary: st)
  case Nil
  then show ?case by simp
next
  case (Cons e es)
  from Cons.prems obtain st1 where
    e: "from_bytes_entry st e = Inr st1" and l: "from_bytes_loop st1 es = Inr st'"
    by (auto split: sum.splits)
  from from_bytes_entry_keeps [OF e] Cons.IH [OF l]
  show ?case by auto
qed

lemma example_status_entries:
  "parse_status_struct [5, 0, 1, 1, 2, 0, 0] = ([(1, 1, [2])], None)"
  by (simp add: parse_status_struct_def parse_entries.simps)

text \<open>
  C9: when \<open>Status.from_bytes\<close> succeeds, every field whose tag does not occur among the
  decoded entries has its default: state IDLE, error NONE, source UNKNOWN, no levels,
  maintenance box (-1, UNKNOWN), empty serial; \<open>other\<close> has no key that is not a decoded
  tag, and is empty when every decoded tag is a known one.
\<close>

theorem from_bytes_defaults:
  assumes "from_bytes data = Inr st"
  shows "(0x01 \<notin> fst ` set (fst (parse_status_struct data)) \<longrightarrow> state st = IDLE)
     \<and> (0x02 \<notin> fst ` set (fst (parse_status_struct data)) \<longrightarrow> error st = NONE)
     \<and> (0x06 \<notin> fst ` set (fst (parse_status_struct data)) \<longrightarrow> source st = PaperPath_UNKNOWN)
     \<and> (0x0F \<notin> fst ` set (fst (parse_status_struct data)) \<longrightarrow> levels st = [])
     \<and> (0x0D \<notin> fst ` set (fst (parse_status_struct data))
          \<longrightarrow> maintenance_box st = \<lparr>level = -1, status = ConsumableStatus_UNKNOWN\<rparr>)
     \<and> (0x40 \<notin> fst ` set (fst (parse_status_struct data)) \<longrightarrow> serial st = [])
     \<and> (\<forall>h. h \<notin> fst ` set (fst (parse_status_struct data)) \<longrightarrow> other st h = None)
     \<and> (fst ` set (fst (parse_status_struct data)) \<subseteq> {0x01, 0x02, 0x06, 0x0D, 0x0F, 0x40}
          \<longrightarrow> other st = Map.empty)"
proof -
  from assms have "from_bytes_loop Status_initial (fst (parse_status_struct data)) = Inr st"
    by (auto simp: from_bytes_def split: prod.splits sum.splits option.splits)
  from from_bytes_loop_keeps [OF this] show ?thesis
    by (simp add: Status_initial_def)
qed

theorem from_bytes_defaults_witness:
  "from_bytes [5, 0, 1, 1, 2, 0, 0]
     = Inr \<lparr>state = BUSY, error = NONE, source = PaperPath_UNKNOWN, levels = [],
            maintenance_box = \<lparr>level = -1, status = ConsumableStatus_UNKNOWN\<rparr>,
            serial = [], other = Map.empty\<rparr>"
proof -
  obtain st where st: "from_bytes [5, 0, 1, 1, 2, 0, 0] = Inr st"
    and b: "state st = BUSY"
    by (simp add: from_bytes_def example_status_entries from_bytes_entry_def
        PrinterState_of_def PrinterState_values_def)
  from from_bytes_defaults [OF st] b have "st = \<lparr>state = BUSY, error = NONE, source = PaperPath_UNKNOWN, levels = [],
            maintenance_box = \<lparr>level = -1, status = ConsumableStatus_UNKNOWN\<rparr>,
            serial = [], other = Map.empty\<rparr>"
    by (simp add: example_status_entries)
  with st show ?thesis by simp
qed

section \<open>Properties of the printer facade\<close>

lemma action_code_range:
  assumes "0 \<le> a" "a < 256"
  shows "0 \<le> a XOR 0xFF \<and> a XOR 0xFF < 256
     \<and> 0 \<le> (drop_bit 1 a AND 0x7F) OR (push_bit 7 a AND 0x80)
     \<and> (drop_bit 1 a AND 0x7F) OR (push_bit 7 a AND 0x80) < (256::int)"
proof -
  have x0: "0 \<le> a XOR 0xFF" using assms by simp
  have "a XOR 0xFF < 2 ^ 8"
    by (rule XOR_upper) (use assms in simp_all)
  then have x1: "a XOR 0xFF < 256" by simp
  have l0: "0 \<le> drop_bit 1 a AND 0x7F" by simp
  have l1: "drop_bit 1 a AND 0x7F \<le> 0x7F" by (rule AND_upper2) simp
  have r0: "0 \<le> push_bit 7 a AND 0x80" by simp
  have r1: "push_bit 7 a AND 0x80 \<le> 0x80" by (rule AND_upper2) simp
  have "(drop_bit 1 a AND 0x7F) OR (push_bit 7 a AND 0x80) < 2 ^ 8"
    by (rule OR_upper) (use l0 l1 r1 in simp_all)
  then have o1: "(drop_bit 1 a AND 0x7F) OR (push_bit 7 a AND 0x80) < 256" by simp
  have o0: "0 \<le> (drop_bit 1 a AND 0x7F) OR (push_bit 7 a AND 0x80)"
    using l0 r0 by simp
  from x0 x1 o0 o1 show ?thesis by simp
qed

lemma to_bytes_little_2:
  "0 \<le> v \<Longrightarrow> v < 65536
     \<Longrightarrow> to_bytes_little v 2 = Inr [word_of_int v, word_of_int (v div 256)]"
  by (simp add: to_bytes_little_def numeral_2_eq_2)

lemma to_bytes_little_1:
  "0 \<le> v \<Longrightarrow> v < 256 \<Longrightarrow> to_bytes_little v (Suc 0) = Inr [word_of_int v]"
  by (simp add: to_bytes_little_def)

lemma to_bytes_little_overflow:
  "v < 0 \<or> 256 ^ n \<le> v \<Longrightarrow> to_bytes_little v n = Inl OverflowError"
  by (simp add: to_bytes_little_def)

text \<open>
  C5: for every action byte \<open>a\<close> from 0 to 255 and every payload, the action code is the
  triple \<open>a\<close>, \<open>a XOR 0xFF\<close>, \<open>((a >> 1) & 0x7F) | ((a << 7) & 0x80)\<close>, and the command
  handed to the backend is \<open>"||"\<close>, the little-endian length, the model bytes, that triple
  and the payload (\<open>OverflowError\<close> when the length does not fit two bytes); 0x41 gives
  0xBE, 0xA0 and 0x42 gives 0xBD, 0x21.
\<close>

theorem factory_command_action_code:
  assumes "0 \<le> a" "a \<le> 255"
  shows "action_code a
           = Inr [word_of_int a, word_of_int (a XOR 0xFF),
                  word_of_int ((drop_bit 1 a AND 0x7F) OR (push_bit 7 a AND 0x80))]
    \<and> send_factory_command send mdl a pl s
        = (if length mdl + 3 + length pl < 65536
           then send ([0x7C, 0x7C]
                  @ [word_of_int (int (length mdl + 3 + length pl)),
                     word_of_int (int (length mdl + 3 + length pl) div 256)]
                  @ mdl
                  @ [word_of_int a, word_of_int (a XOR 0xFF),
                     word_of_int ((drop_bit 1 a AND 0x7F) OR (push_bit 7 a AND 0x80))]
                  @ pl) s
           else (Inl OverflowError, s))
    \<and> action_code 0x41 = Inr [0x41, 0xBE, 0xA0]
    \<and> action_code 0x42 = Inr [0x42, 0xBD, 0x21]"
proof -
  from assms have "a < 256" by simp
  from action_code_range [OF assms(1) this] assms
  have ac: "action_code a
           = Inr [word_of_int a, word_of_int (a XOR 0xFF),
                  word_of_int ((drop_bit 1 a AND 0x7F) OR (push_bit 7 a AND 0x80))]"
    by (simp add: action_code_def bytes_of_ints_def)
  have sf: "send_factory_command send mdl a pl s
        = (if length mdl + 3 + length pl < 65536
           then send ([0x7C, 0x7C]
                  @ [word_of_int (int (length mdl + 3 + length pl)),
                     word_of_int (int (length mdl + 3 + length pl) div 256)]
                  @ mdl
                  @ [word_of_int a, word_of_int (a XOR 0xFF),
                     word_of_int ((drop_bit 1 a AND 0x7F) OR (push_bit 7 a AND 0x80))]
                  @ pl) s
           else (Inl OverflowError, s))"
    by (simp add: send_factory_command_def ac send_command_def to_bytes_little_2
        to_bytes_little_overflow ac_simps)
  have c1: "action_code 0x41 = Inr [0x41, 0xBE, 0xA0]"
    by (simp add: action_code_def bytes_of_ints_def)
  have c2: "action_code 0x42 = Inr [0x42, 0xBD, 0x21]"
    by (simp add: action_code_def bytes_of_ints_def)
  from ac sf c1 c2 show ?thesis by simp
qed

theorem factory_command_action_code_witness:
  "send_factory_command (recording_backend 5) [1, 2] 0x41 [9] []
     = (Inr [], [[0x7C, 0x7C, 6, 0, 1, 2, 0x41, 0xBE, 0xA0, 9]])"
  using factory_command_action_code
    [where a = "0x41" and send = "recording_backend 5" and mdl = "[1, 2]"
       and pl = "[9]" and s = "[]"]
  by (simp add: recording_backend_def)

lemma reset_waste_loop_append:
  "reset_waste_loop send device (xs @ ys) s
     = (case reset_waste_loop send device xs s of
          (Inl e, s') \<Rightarrow> (Inl e, s')
        | (Inr u, s') \<Rightarrow> reset_waste_loop send device ys s')"
  by (induction xs arbitrary: s) (auto split: prod.splits sum.splits)

lemma example_write_eeprom:
  "write_eeprom (recording_backend n) example_device 0x10 0 sent
     = (if length sent = n then Inl OSError else Inr [],
        sent @ [[0x7C, 0x7C, 8, 0, 1, 0x42, 0xBD, 0x21, 0x10, 0, 0, 7]])"
  "write_eeprom (recording_backend n) example_device 0x11 0 sent
     = (if length sent = n then Inl OSError else Inr [],
        sent @ [[0x7C, 0x7C, 8, 0, 1, 0x42, 0xBD, 0x21, 0x11, 0, 0, 7]])"
  "write_eeprom (recording_backend n) example_device 0x12 0 sent
     = (if length sent = n then Inl OSError else Inr [],
        sent @ [[0x7C, 0x7C, 8, 0, 1, 0x42, 0xBD, 0x21, 0x12, 0, 0, 7]])"
  by (simp_all add: write_eeprom_def to_bytes_little_2 to_bytes_little_1
      send_factory_command_def action_code_def bytes_of_ints_def send_command_def
      recording_backend_def example_device_def)

text \<open>
  C8: \<open>reset_waste\<close> writes the pairs of the reset map one after the other: when the
  writes before a pair have succeeded, a failure of that pair's \<open>write_eeprom\<close> is the
  result of \<open>reset_waste\<close>, with the backend state that write left (the later pairs are
  not written), and a success continues with the pairs after it.
\<close>

theorem reset_waste_sequential:
  assumes "reset device = xs @ (addr, val) # ys"
    and "reset_waste_loop send device xs s = (Inr (), s1)"
  shows "(\<forall>e s2. write_eeprom send device addr val s1 = (Inl e, s2)
            \<longrightarrow> reset_waste send device s = (Inl e, s2))
       \<and> (\<forall>r s2. write_eeprom send device addr val s1 = (Inr r, s2)
            \<longrightarrow> reset_waste send device s = reset_waste_loop send device ys s2)"
  using assms by (simp add: reset_waste_def reset_waste_loop_append)


theorem reset_waste_sequential_witness:
  "reset_waste (recording_backend 1) example_device []
     = (Inl OSError,
        [[0x7C, 0x7C, 8, 0, 1, 0x42, 0xBD, 0x21, 0x10, 0, 0, 7],
         [0x7C, 0x7C, 8, 0, 1, 0x42, 0xBD, 0x21, 0x11, 0, 0, 7]])
   \<and> reset_waste (recording_backend 5) example_device []
     = (Inr (),
        [[0x7C, 0x7C, 8, 0, 1, 0x42, 0xBD, 0x21, 0x10, 0, 0, 7],
         [0x7C, 0x7C, 8, 0, 1, 0x42, 0xBD, 0x21, 0x11, 0, 0, 7],
         [0x7C, 0x7C, 8, 0, 1, 0x42, 0xBD, 0x21, 0x12, 0, 0, 7]])"
proof -
  have r: "reset example_device = [(0x10, 0)] @ (0x11, 0) # [(0x12, 0)]"
    by (simp add: example_device_def)
  have p1: "reset_waste_loop (recording_backend 1) example_device [(0x10, 0)] []
      = (Inr (), [[0x7C, 0x7C, 8, 0, 1, 0x42, 0xBD, 0x21, 0x10, 0, 0, 7]])"
    by (simp add: example_write_eeprom)
  have p5: "reset_waste_loop (recording_backend 5) example_device [(0x10, 0)] []
      = (Inr (), [[0x7C, 0x7C, 8, 0, 1, 0x42, 0xBD, 0x21, 0x10, 0, 0, 7]])"
    by (simp add: example_write_eeprom)
  from reset_waste_sequential [OF r p1] reset_waste_sequential [OF r p5]
  show ?thesis by (simp add: example_write_eeprom)
qed

section \<open>Credit conservation\<close>

lemma balance_write_packet:
  "balance r (snd (write_packet r' packet s)) = balance r s"
  by (auto simp: write_packet_def balance_def update_channel_def record_event_def
      credits_received_def credits_granted_def packets_sent_def split: sum.splits)

lemma balance_read_next_packet:
  "balance r (snd (read_next_packet s)) = balance r s"
  by (auto simp: read_next_packet_def balance_def update_channel_def record_event_def
      credits_received_def credits_granted_def packets_sent_def
      split: sum.splits prod.splits option.splits)

lemma balance_update_other:
  "tx_credits (f (channels s r')) = tx_credits (channels s r')
     \<Longrightarrow> balance r (update_channel r' f s) = balance r s"
  by (simp add: balance_def update_channel_def credits_received_def credits_granted_def
      packets_sent_def)

lemma balance_read_packet:
  "balance r (snd (read_packet r' s)) = balance r s"
  by (rule read_packet_rule [where Q = "\<lambda>s'. balance r s' = balance r s"])
    (simp_all add: balance_read_next_packet balance_update_other)

lemma balance_command:
  "balance r (snd (command cmd pl s)) = balance r s"
proof -
  obtain res s' where c: "command cmd pl s = (res, s')" by (cases "command cmd pl s")
  from c have "balance r s' = balance r s"
  proof (cases rule: command_cases)
    case (fail e)
    then show ?thesis by simp
  next
    case (sent r0 s1 res2)
    from sent(3) balance_write_packet [of r r0 "command_packet cmd pl" s]
    have "balance r s1 = balance r s" by simp
    with sent(4) balance_read_packet [of r r0 s1] show ?thesis by simp
  qed
  with c show ?thesis by simp
qed

lemma balance_Credit:
  "balance r (snd (Credit r' amount s)) = balance r s"
proof -
  obtain res s' where c: "Credit r' amount s = (res, s')" by (cases "Credit r' amount s")
  from c have "balance r s' = balance r s"
  proof (cases rule: Credit_cases)
    case (fail e)
    then show ?thesis by simp
  next
    case (sent req resc)
    with balance_command [of r D4Command_Credit req s] show ?thesis by simp
  qed
  with c show ?thesis by simp
qed

lemma balance_CreditRequest:
  "balance r (snd (CreditRequest r' amount s)) = balance r s"
proof -
  obtain res s' where c: "CreditRequest r' amount s = (res, s')"
    by (cases "CreditRequest r' amount s")
  from c have "balance r s' = balance r s"
  proof (cases rule: CreditRequest_cases)
    case (fail e)
    then show ?thesis by simp
  next
    case (stopped req resc e)
    with balance_command [of r D4Command_CreditRequest req s] show ?thesis by simp
  next
    case (granted req resp s1 p r'' g)
    from granted(1) balance_command [of r D4Command_CreditRequest req s]
    have "balance r s1 = balance r s" by simp
    with granted(6) show ?thesis
      by (simp add: balance_def update_channel_def record_event_def credits_received_def
          credits_granted_def packets_sent_def)
  qed
  with c show ?thesis by simp
qed

lemma balance_ensure_credit:
  "balance r (snd (ensure_credit r' s)) = balance r s"
proof (cases "tx_credits (channels s r') < 1")
  case True
  have "balance r (snd (CreditRequest_loop r' s)) = balance r s"
    by (rule CreditRequest_loop_rule [where Q = "\<lambda>s'. balance r s' = balance r s"])
      (simp_all add: balance_CreditRequest)
  with True show ?thesis by (simp add: ensure_credit_def)
next
  case False
  then show ?thesis by (simp add: ensure_credit_def)
qed

lemma balance_write_fragment:
  "balance r (snd (write_fragment r' data s)) = balance r s"
proof -
  obtain res s' where c: "write_fragment r' data s = (res, s')"
    by (cases "write_fragment r' data s")
  let ?s1 = "update_channel r'
            (\<lambda>c. c\<lparr>rx_credits := rx_credits c
                      + min (rx_credits_max (channels s r') - rx_credits (channels s r')) 0xFF\<rparr>) s"
  have b1: "balance r ?s1 = balance r s" by (simp add: balance_update_other)
  from c have "balance r s' = balance r s"
  proof (cases rule: write_fragment_cases)
    case untyped
    then show ?thesis by simp
  next
    case (nocredit m e)
    with balance_ensure_credit [of r r' ?s1] b1 show ?thesis by simp
  next
    case (written m s2 resw)
    from written(2) balance_ensure_credit [of r r' ?s1] b1
    have "balance r s2 = balance r s" by simp
    with written(3) show ?thesis by (metis balance_write_packet snd_conv)
  qed
  with c show ?thesis by simp
qed

lemma balance_D4Channel_write:
  "balance r (snd (D4Channel_write r' data s)) = balance r s"
  by (rule D4Channel_write_rule [where Q = "\<lambda>s'. balance r s' = balance r s"])
    (simp_all add: balance_write_fragment)

lemma balance_D4Channel_read:
  "balance r (snd (D4Channel_read r' s)) = balance r s"
proof -
  obtain res s' where c: "D4Channel_read r' s = (res, s')"
    by (cases "D4Channel_read r' s")
  from c have "balance r s' = balance r s"
  proof (cases rule: D4Channel_read_cases)
    case plain
    with balance_read_packet [of r r' s] show ?thesis by simp
  next
    case (nocredit e)
    then show ?thesis by (metis balance_Credit snd_conv)
  next
    case (credited s1)
    from credited(2) have "balance r s1 = balance r s" by (metis balance_Credit snd_conv)
    moreover have "balance r (update_channel r'
            (\<lambda>c. c\<lparr>rx_credits := rx_credits c
                      + (rx_credits_max (channels s r') - rx_credits (channels s r'))\<rparr>) s1)
          = balance r s1"
      by (simp add: balance_update_other)
    ultimately show ?thesis using credited(3)
      by (metis balance_read_packet snd_conv)
  qed
  with c show ?thesis by simp
qed

lemma balance_run_ops:
  "balance r (run_ops ops s) = balance r s"
proof (induction ops arbitrary: s)
  case Nil
  show ?case by simp
next
  case (Cons op ops)
  have "balance r (run_op op s) = balance r s"
    by (cases op) (simp_all add: balance_D4Channel_write balance_D4Channel_read)
  with Cons.IH [of "run_op op s"] show ?case by simp
qed

text \<open>
  C3, as amended: over any finite interleaving of channel writes and channel reads, from
  any state, the final \<open>tx_credits\<close> of a channel is the initial one, plus the credit
  fields of the packets received on it, plus the amounts \<open>CreditRequest\<close> granted to it,
  minus the number of packets sent on it.
\<close>

theorem credit_conservation:
  "tx_credits (channels (run_ops ops s) r)
     = tx_credits (channels s r)
       + (credits_received r (run_ops ops s) - credits_received r s)
       + (credits_granted r (run_ops ops s) - credits_granted r s)
       - (packets_sent r (run_ops ops s) - packets_sent r s)"
  using balance_run_ops [of r ops s] by (simp add: balance_def)

theorem credit_conservation_witness:
  "tx_credits (channels (run_ops [Write 1 [0xAA, 0xBB], Read 1] entered) 1)
     = tx_credits (channels entered 1) + 1 + 1 - 1"
proof -
  have "credits_received 1 (run_ops [Write 1 [0xAA, 0xBB], Read 1] entered)
          - credits_received 1 entered = 1"
    "credits_granted 1 (run_ops [Write 1 [0xAA, 0xBB], Read 1] entered)
          - credits_granted 1 entered = 1"
    "packets_sent 1 (run_ops [Write 1 [0xAA, 0xBB], Read 1] entered)
          - packets_sent 1 entered = 1"
    unfolding entered_def by code_simp+
  with credit_conservation [of "[Write 1 [0xAA, 0xBB], Read 1]" entered 1]
  show ?thesis by simp
qed

text \<open>
  C3 as stated leaves the grants out: a write on a channel without credit asks for
  credit, is granted 1 and sends one packet, so \<open>tx_credits\<close> ends at 0 where the
  claim gives -1.
\<close>

theorem credit_conservation_counterexample:
  "tx_credits (channels (run_ops [Write 1 [0xAA, 0xBB]] entered) 1)
     \<noteq> tx_credits (channels entered 1)
       + (credits_received 1 (run_ops [Write 1 [0xAA, 0xBB]] entered)
            - credits_received 1 entered)
       - (packets_sent 1 (run_ops [Write 1 [0xAA, 0xBB]] entered) - packets_sent 1 entered)
   \<and> tx_credits (channels entered 1) = 0
   \<and> tx_credits (channels (run_ops [Write 1 [0xAA, 0xBB]] entered) 1) = 0
   \<and> credits_received 1 (run_ops [Write 1 [0xAA, 0xBB]] entered)
         - credits_received 1 entered = 0
   \<and> packets_sent 1 (run_ops [Write 1 [0xAA, 0xBB]] entered) - packets_sent 1 entered = 1
   \<and> credits_granted 1 (run_ops [Write 1 [0xAA, 0xBB]] entered)
         - credits_granted 1 entered = 1"
  unfolding entered_def by code_simp

section \<open>The credit invariant of the table\<close>

lemma steady_refl: "steady s s"
  by (simp add: steady_def)

lemma steady_trans: "steady s s1 \<Longrightarrow> steady s1 s2 \<Longrightarrow> steady s s2"
  unfolding steady_def by (intro conjI allI; (simp; fail | metis order_trans))

lemma sent_packets_append:
  "sent_packets r (evs @ evs') = sent_packets r evs @ sent_packets r evs'"
  by (induction r evs rule: sent_packets.induct) simp_all

lemma steady_read_next_packet: "steady s (snd (read_next_packet s))"
  by (auto simp: read_next_packet_def steady_def update_channel_def record_event_def
      sent_packets_append split: sum.splits prod.splits option.splits)

lemma steady_pop: "steady s (update_channel r (\<lambda>c. c\<lparr>rx_queue := q\<rparr>) s)"
  by (simp add: steady_def update_channel_def)

lemma steady_read_packet: "steady s (snd (read_packet r s))"
  by (rule read_packet_rule [where Q = "steady s"])
    (blast intro: steady_refl steady_trans steady_read_next_packet steady_pop)+

lemma steady_write_packet0:
  "open_channels s 0 = Some r0 \<Longrightarrow> steady s (snd (write_packet r0 packet s))"
  by (auto simp: write_packet_def steady_def update_channel_def record_event_def
      sent_packets_append split: sum.splits)

lemma steady_command: "steady s (snd (command cmd pl s))"
proof -
  obtain res s' where c: "command cmd pl s = (res, s')" by (cases "command cmd pl s")
  from c have "steady s s'"
  proof (cases rule: command_cases)
    case (fail e)
    then show ?thesis by (simp add: steady_refl)
  next
    case (sent r0 s1 res2)
    from sent(1,3) steady_write_packet0 [of s r0 "command_packet cmd pl"]
    have "steady s s1" by simp
    moreover from sent(4) steady_read_packet [of s1 r0] have "steady s1 s'" by simp
    ultimately show ?thesis by (rule steady_trans)
  qed
  with c show ?thesis by simp
qed

lemma steady_Credit: "steady s (snd (Credit r amount s))"
proof -
  obtain res s' where c: "Credit r amount s = (res, s')" by (cases "Credit r amount s")
  from c have "steady s s'"
  proof (cases rule: Credit_cases)
    case (fail e)
    then show ?thesis by (simp add: steady_refl)
  next
    case (sent req resc)
    then show ?thesis by (metis steady_command snd_conv)
  qed
  with c show ?thesis by simp
qed

lemma steady_CreditRequest: "steady s (snd (CreditRequest r amount s))"
proof -
  obtain res s' where c: "CreditRequest r amount s = (res, s')"
    by (cases "CreditRequest r amount s")
  from c have "steady s s'"
  proof (cases rule: CreditRequest_cases)
    case (fail e)
    then show ?thesis by (simp add: steady_refl)
  next
    case (stopped req resc e)
    then show ?thesis by (metis steady_command snd_conv)
  next
    case (granted req resp s1 p r' g)
    from granted(1) have "steady s s1" by (metis steady_command snd_conv)
    moreover from granted(6) have "steady s1 s'"
      by (simp add: steady_def update_channel_def record_event_def sent_packets_append)
    ultimately show ?thesis by (rule steady_trans)
  qed
  with c show ?thesis by simp
qed

lemma steady_ensure_credit: "steady s (snd (ensure_credit r s))"
proof (cases "tx_credits (channels s r) < 1")
  case True
  have "steady s (snd (CreditRequest_loop r s))"
    by (rule CreditRequest_loop_rule [where Q = "steady s"])
      (blast intro: steady_refl steady_trans steady_CreditRequest)+
  with True show ?thesis by (simp add: ensure_credit_def)
next
  case False
  then show ?thesis by (simp add: ensure_credit_def steady_refl)
qed


lemma table_ok_write_packet:
  assumes "table_ok s" and "\<forall>p. open_channels s p = Some r \<longrightarrow> 1 \<le> tx_credits (channels s r)"
  shows "table_ok (snd (write_packet r packet s))"
  using assms
  by (auto simp: write_packet_def table_ok_def update_channel_def record_event_def
      split: sum.splits)

lemma read_next_packet_effect:
  assumes "read_next_packet s = (res, s')"
  shows "(\<exists>t. s' = s\<lparr>transport := t\<rparr>)
     \<or> (\<exists>t p r packet. open_channels s p = Some r \<and> 0 \<le> credit packet \<and> res = Inr ()
           \<and> s' = record_event (Received r packet)
              (update_channel r
                 (\<lambda>c. c\<lparr>tx_credits := tx_credits c + credit packet,
                         rx_credits := rx_credits c - 1,
                         rx_queue := rx_queue c @ [packet]\<rparr>)
                 (s\<lparr>transport := t\<rparr>)))"
proof -
  obtain r1 t1 where a: "transport_read 6 (transport s) = (r1, t1)"
    by (cases "transport_read 6 (transport s)")
  show ?thesis
  proof (cases r1)
    case (Inl e)
    with a assms show ?thesis by (auto simp: read_next_packet_def)
  next
    case (Inr header_data)
    show ?thesis
    proof (cases "unpack_BBHBB header_data")
      case (Inl e)
      with a Inr assms show ?thesis by (auto simp: read_next_packet_def)
    next
      case u: (Inr tup)
      obtain p sid len cr ctl where tup: "tup = (p, sid, len, cr, ctl)" by (cases tup)
      from u tup have cr: "0 \<le> cr"
        by (auto simp: unpack_BBHBB_def split: list.splits)
      obtain r2 t2 where b: "transport_read (len - 6) t1 = (r2, t2)"
        by (cases "transport_read (len - 6) t1")
      show ?thesis
      proof (cases r2)
        case (Inl e)
        with a Inr u tup b assms show ?thesis by (auto simp: read_next_packet_def)
      next
        case pl: (Inr pl)
        show ?thesis
        proof (cases "open_channels s p")
          case None
          with a Inr u tup b pl assms show ?thesis by (auto simp: read_next_packet_def)
        next
          case (Some r)
          with a Inr u tup b pl assms
          have "res = Inr ()" and "s' = record_event (Received r (D4Packet (Some p) sid cr ctl pl))
              (update_channel r
                 (\<lambda>c. c\<lparr>tx_credits := tx_credits c + credit (D4Packet (Some p) sid cr ctl pl),
                         rx_credits := rx_credits c - 1,
                         rx_queue := rx_queue c @ [D4Packet (Some p) sid cr ctl pl]\<rparr>)
                 (s\<lparr>transport := t2\<rparr>))"
            by (auto simp: read_next_packet_def)
          with Some cr show ?thesis
            by (intro disjI2 exI [of _ t2] exI [of _ p] exI [of _ r]
                exI [of _ "D4Packet (Some p) sid cr ctl pl"]) simp
        qed
      qed
    qed
  qed
qed

lemma read_next_packet_cases:
  assumes "read_next_packet s = (res, s')"
  obtains (idle) t where "s' = s\<lparr>transport := t\<rparr>"
  | (delivered) t p r packet where "open_channels s p = Some r" "0 \<le> credit packet"
      "res = Inr ()"
      "s' = record_event (Received r packet)
              (update_channel r
                 (\<lambda>c. c\<lparr>tx_credits := tx_credits c + credit packet,
                         rx_credits := rx_credits c - 1,
                         rx_queue := rx_queue c @ [packet]\<rparr>)
                 (s\<lparr>transport := t\<rparr>))"
  using read_next_packet_effect [OF assms] by blast

lemma table_okD:
  "table_ok s \<Longrightarrow> open_channels s p = Some r
     \<Longrightarrow> r < allocated s \<and> 0 \<le> tx_credits (channels s r)
        \<and> rx_credits (channels s r) \<le> rx_credits_max (channels s r)
        \<and> (psid (channels s r) = None \<or> psid (channels s r) = Some p)"
  by (simp add: table_ok_def)

lemma table_ok_read_next_packet:
  assumes "table_ok s"
  shows "table_ok (snd (read_next_packet s))"
proof -
  obtain res s' where c: "read_next_packet s = (res, s')" by (cases "read_next_packet s")
  from c have "table_ok s'"
  proof (cases rule: read_next_packet_cases)
    case (idle t)
    with assms show ?thesis by (simp add: table_ok_def)
  next
    case (delivered t p r packet)
    from delivered(4) have o: "open_channels s' = open_channels s" "allocated s' = allocated s"
      and ch: "channels s' = (channels s)(r := (channels s r)
                 \<lparr>tx_credits := tx_credits (channels s r) + credit packet,
                  rx_credits := rx_credits (channels s r) - 1,
                  rx_queue := rx_queue (channels s r) @ [packet]\<rparr>)"
      by (simp_all add: update_channel_def record_event_def)
    show ?thesis
      unfolding table_ok_def
    proof (intro allI impI)
      fix q r'
      assume "open_channels s' q = Some r'"
      with o have q: "open_channels s q = Some r'" by simp
      from table_okD [OF assms q] delivered(2) ch o
      show "r' < allocated s' \<and> 0 \<le> tx_credits (channels s' r')
        \<and> rx_credits (channels s' r') \<le> rx_credits_max (channels s' r')
        \<and> (psid (channels s' r') = None \<or> psid (channels s' r') = Some q)"
        by (cases "r' = r") simp_all
    qed
  qed
  with c show ?thesis by simp
qed

lemma table_ok_pop:
  "table_ok s \<Longrightarrow> table_ok (update_channel r (\<lambda>c. c\<lparr>rx_queue := q\<rparr>) s)"
  by (simp add: table_ok_def update_channel_def)

lemma table_ok_read_packet:
  "table_ok s \<Longrightarrow> table_ok (snd (read_packet r s))"
  by (rule read_packet_rule [where Q = table_ok])
    (simp_all add: table_ok_read_next_packet table_ok_pop)

lemma table_ok_command:
  assumes "table_ok s" and "cmd \<notin> {D4Command_Init, D4Command_Exit}"
  shows "table_ok (snd (command cmd pl s))"
proof -
  obtain res s' where c: "command cmd pl s = (res, s')" by (cases "command cmd pl s")
  from c have "table_ok s'"
  proof (cases rule: command_cases)
    case (fail e)
    with assms show ?thesis by simp
  next
    case (sent r0 s1 res2)
    from sent(1,2) assms have "1 \<le> tx_credits (channels s r0)"
      by (fastforce simp: table_ok_def)
    then have "\<forall>p. open_channels s p = Some r0 \<longrightarrow> 1 \<le> tx_credits (channels s r0)"
      by simp
    from table_ok_write_packet [OF assms(1) this, of "command_packet cmd pl"] sent(3)
    have "table_ok s1" by simp
    from table_ok_read_packet [OF this, of r0] sent(4) show ?thesis by simp
  qed
  with c show ?thesis by simp
qed

lemma table_ok_Credit:
  assumes "table_ok s"
  shows "table_ok (snd (Credit r amount s))"
proof -
  obtain res s' where c: "Credit r amount s = (res, s')" by (cases "Credit r amount s")
  from c have "table_ok s'"
  proof (cases rule: Credit_cases)
    case (fail e)
    with assms show ?thesis by simp
  next
    case (sent req resc)
    with table_ok_command [OF assms, of D4Command_Credit req] show ?thesis by simp
  qed
  with c show ?thesis by simp
qed

lemma table_ok_CreditRequest:
  assumes "table_ok s" and "CreditRequest r amount s = (res, s')"
  shows "table_ok s'"
    and "\<forall>g. res = Inr g \<and> 1 \<le> g
           \<longrightarrow> (\<forall>p. open_channels s' p = Some r \<longrightarrow> 1 \<le> tx_credits (channels s' r))"
proof -
  from assms(2) have "table_ok s'
     \<and> (\<forall>g. res = Inr g \<and> 1 \<le> g
           \<longrightarrow> (\<forall>p. open_channels s' p = Some r \<longrightarrow> 1 \<le> tx_credits (channels s' r)))"
  proof (cases rule: CreditRequest_cases)
    case (fail e)
    with assms show ?thesis by simp
  next
    case (stopped req resc e)
    with table_ok_command [OF assms(1), of D4Command_CreditRequest req] show ?thesis by simp
  next
    case (granted req resp s1 p r' g)
    from table_ok_command [OF assms(1), of D4Command_CreditRequest req] granted(1)
    have t1: "table_ok s1" by simp
    from granted(6) have o: "open_channels s' = open_channels s1" "allocated s' = allocated s1"
      and ch: "channels s' = (channels s1)(r' := (channels s1 r')\<lparr>tx_credits := tx_credits (channels s1 r') + g\<rparr>)"
      by (simp_all add: update_channel_def record_event_def)
    from t1 o ch granted(4) have t': "table_ok s'"
      by (auto simp: table_ok_def)
    have "1 \<le> tx_credits (channels s' r)" if "open_channels s' q = Some r" "1 \<le> g" for q
    proof -
      from that(1) o have q: "open_channels s1 q = Some r" by simp
      with table_okD [OF t1 q] granted(2) have "q = p" by simp
      with q granted(3) have "r' = r" by simp
      moreover from table_okD [OF t1 q] have "0 \<le> tx_credits (channels s1 r)" by simp
      ultimately show ?thesis using ch that(2) by simp
    qed
    with t' granted(5) show ?thesis by auto
  qed
  then show "table_ok s'"
    and "\<forall>g. res = Inr g \<and> 1 \<le> g
           \<longrightarrow> (\<forall>p. open_channels s' p = Some r \<longrightarrow> 1 \<le> tx_credits (channels s' r))"
    by blast+
qed

lemma table_ok_ensure_credit:
  assumes "table_ok s" and "ensure_credit r s = (res, s')"
  shows "table_ok s'"
    and "res = Inr () \<longrightarrow> (\<forall>p. open_channels s' p = Some r \<longrightarrow> 1 \<le> tx_credits (channels s' r))"
proof -
  have step: "\<And>s. table_ok s \<Longrightarrow> table_ok (snd (CreditRequest r 0xFFFF s))"
    by (metis table_ok_CreditRequest(1) prod.collapse)
  show "table_ok s'"
  proof (cases "tx_credits (channels s r) < 1")
    case True
    from CreditRequest_loop_rule [where Q = table_ok, OF assms(1) step] True assms(2)
    show ?thesis by (simp add: ensure_credit_def)
  next
    case False
    with assms show ?thesis by (simp add: ensure_credit_def)
  qed
  show "res = Inr () \<longrightarrow> (\<forall>p. open_channels s' p = Some r \<longrightarrow> 1 \<le> tx_credits (channels s' r))"
  proof (cases "tx_credits (channels s r) < 1")
    case True
    show ?thesis
    proof
      assume "res = Inr ()"
      with True assms(2) have "CreditRequest_loop r s = (Inr (), s')"
        by (simp add: ensure_credit_def)
      from CreditRequest_loop_last [where Q = table_ok, OF this assms(1) step]
      obtain s0 g where "table_ok s0" "CreditRequest r 0xFFFF s0 = (Inr g, s')" "1 \<le> g"
        by blast
      from table_ok_CreditRequest(2) [OF this(1,2)] this(3)
      show "\<forall>p. open_channels s' p = Some r \<longrightarrow> 1 \<le> tx_credits (channels s' r)" by simp
    qed
  next
    case False
    with assms show ?thesis by (auto simp: ensure_credit_def)
  qed
qed

lemma table_ok_rx_update:
  assumes "table_ok s" and "rx_credits (channels s r) + d \<le> rx_credits_max (channels s r)"
  shows "table_ok (update_channel r (\<lambda>c. c\<lparr>rx_credits := rx_credits c + d\<rparr>) s)"
  unfolding table_ok_def
proof (intro allI impI)
  fix p r'
  let ?s' = "update_channel r (\<lambda>c. c\<lparr>rx_credits := rx_credits c + d\<rparr>) s"
  assume "open_channels ?s' p = Some r'"
  then have q: "open_channels s p = Some r'" by (simp add: update_channel_def)
  from table_okD [OF assms(1) q] assms(2)
  show "r' < allocated ?s' \<and> 0 \<le> tx_credits (channels ?s' r')
        \<and> rx_credits (channels ?s' r') \<le> rx_credits_max (channels ?s' r')
        \<and> (psid (channels ?s' r') = None \<or> psid (channels ?s' r') = Some p)"
    by (cases "r' = r") (simp_all add: update_channel_def)
qed

lemma table_ok_write_fragment:
  assumes "table_ok s"
  shows "table_ok (snd (write_fragment r data s))"
proof -
  obtain res s' where c: "write_fragment r data s = (res, s')"
    by (cases "write_fragment r data s")
  let ?cr = "min (rx_credits_max (channels s r) - rx_credits (channels s r)) 0xFF"
  let ?s1 = "update_channel r (\<lambda>c. c\<lparr>rx_credits := rx_credits c + ?cr\<rparr>) s"
  have t1: "table_ok ?s1"
    by (rule table_ok_rx_update [OF assms]) simp
  from c have "table_ok s'"
  proof (cases rule: write_fragment_cases)
    case untyped
    with assms show ?thesis by simp
  next
    case (nocredit m e)
    from table_ok_ensure_credit(1) [OF t1 nocredit(3)] show ?thesis .
  next
    case (written m s2 resw)
    from table_ok_ensure_credit [OF t1 written(2)]
    have "table_ok s2" "\<forall>p. open_channels s2 p = Some r \<longrightarrow> 1 \<le> tx_credits (channels s2 r)"
      by simp_all
    from table_ok_write_packet [OF this] written(3) show ?thesis
      by (metis snd_conv)
  qed
  with c show ?thesis by simp
qed

lemma table_ok_D4Channel_write:
  "table_ok s \<Longrightarrow> table_ok (snd (D4Channel_write r data s))"
  by (rule D4Channel_write_rule [where Q = table_ok]) (simp_all add: table_ok_write_fragment)

lemma steadyD:
  "steady s s' \<Longrightarrow> open_channels s' = open_channels s \<and> allocated s' = allocated s
     \<and> ssid (channels s' r) = ssid (channels s r)
     \<and> psid (channels s' r) = psid (channels s r)
     \<and> mtu (channels s' r) = mtu (channels s r)
     \<and> rx_credits_max (channels s' r) = rx_credits_max (channels s r)
     \<and> rx_credits (channels s' r) \<le> rx_credits (channels s r)"
  by (simp add: steady_def)

lemma table_ok_D4Channel_read:
  assumes "table_ok s"
  shows "table_ok (snd (D4Channel_read r s))"
proof -
  obtain res s' where c: "D4Channel_read r s = (res, s')"
    by (cases "D4Channel_read r s")
  from c have "table_ok s'"
  proof (cases rule: D4Channel_read_cases)
    case plain
    with table_ok_read_packet [OF assms, of r] show ?thesis by simp
  next
    case (nocredit e)
    then show ?thesis by (metis table_ok_Credit assms snd_conv)
  next
    case (credited s1)
    let ?cr = "rx_credits_max (channels s r) - rx_credits (channels s r)"
    from credited(2) have t1: "table_ok s1" by (metis table_ok_Credit assms snd_conv)
    from credited(2) have "steady s s1" by (metis steady_Credit snd_conv)
    from steadyD [OF this, of r]
    have "rx_credits (channels s1 r) + ?cr \<le> rx_credits_max (channels s1 r)" by simp
    from table_ok_rx_update [OF t1 this]
    have "table_ok (update_channel r (\<lambda>c. c\<lparr>rx_credits := rx_credits c + ?cr\<rparr>) s1)" .
    from table_ok_read_packet [OF this, of r] credited(3) show ?thesis by simp
  qed
  with c show ?thesis by simp
qed

lemma GetSocketID_cases:
  assumes "GetSocketID name s = (res, s')"
  obtains (fail) e where "res = Inl e" "s' = s"
  | (sent) encoded resc where "command D4Command_GetSocketID encoded s = (resc, s')"
  using assms
  by (auto simp: GetSocketID_def split: sum.splits prod.splits list.splits)

lemma table_ok_GetSocketID:
  assumes "table_ok s"
  shows "table_ok (snd (GetSocketID name s))"
proof -
  obtain res s' where c: "GetSocketID name s = (res, s')" by (cases "GetSocketID name s")
  from c have "table_ok s'"
  proof (cases rule: GetSocketID_cases)
    case (fail e)
    with assms show ?thesis by simp
  next
    case (sent encoded resc)
    with table_ok_command [OF assms, of D4Command_GetSocketID encoded] show ?thesis by simp
  qed
  with c show ?thesis by simp
qed

lemma steady_GetSocketID: "steady s (snd (GetSocketID name s))"
proof -
  obtain res s' where c: "GetSocketID name s = (res, s')" by (cases "GetSocketID name s")
  from c have "steady s s'"
  proof (cases rule: GetSocketID_cases)
    case (fail e)
    then show ?thesis by (simp add: steady_refl)
  next
    case (sent encoded resc)
    then show ?thesis by (metis steady_command snd_conv)
  qed
  with c show ?thesis by simp
qed

lemma table_ok_command_credited:
  assumes "table_ok s" and "\<forall>r0. open_channels s 0 = Some r0 \<longrightarrow> 1 \<le> tx_credits (channels s r0)"
  shows "table_ok (snd (command cmd pl s))"
proof -
  obtain res s' where c: "command cmd pl s = (res, s')" by (cases "command cmd pl s")
  from c have "table_ok s'"
  proof (cases rule: command_cases)
    case (fail e)
    with assms show ?thesis by simp
  next
    case (sent r0 s1 res2)
    from sent(1) assms(2)
    have "\<forall>p. open_channels s p = Some r0 \<longrightarrow> 1 \<le> tx_credits (channels s r0)"
      by simp
    from table_ok_write_packet [OF assms(1) this, of "command_packet cmd pl"] sent(3)
    have "table_ok s1" by simp
    from table_ok_read_packet [OF this, of r0] sent(4) show ?thesis by simp
  qed
  with c show ?thesis by simp
qed

lemma table_ok_D4_init:
  assumes "D4_init t = Inr s"
  shows "table_ok s"
proof -
  let ?s0 = "\<lparr>transport = transport_write mode_escape (transport_drain t),
                channels = (\<lambda>r. D4Channel_init 0x00)(0 := (D4Channel_init 0x00)\<lparr>tx_credits := 1\<rparr>),
                allocated = 1,
                open_channels = [0x00 \<mapsto> 0],
                history = []\<rparr>"
  from assms obtain reply t1 u where
    i: "Init (?s0\<lparr>transport := t1\<rparr>) = (Inr u, s)"
    by (auto simp: D4_init_def Let_def split: prod.splits sum.splits)
  let ?s1 = "?s0\<lparr>transport := t1\<rparr>"
  have t: "table_ok ?s1"
    by (simp add: table_ok_def D4Channel_init_def)
  have "\<forall>r0. open_channels ?s1 0 = Some r0 \<longrightarrow> 1 \<le> tx_credits (channels ?s1 r0)"
    by simp
  from table_ok_command_credited [OF t this, of D4Command_Init "[0x10]"] i
  show ?thesis
    by (auto simp: Init_def split: prod.splits sum.splits if_splits)
qed

lemma table_ok_channel:
  assumes "table_ok s" and "channel name s = (res, s')"
  shows "table_ok s'"
    and "\<forall>r. res = Inr r \<longrightarrow> r \<notin> ran (open_channels s') \<and> r < allocated s'
           \<and> rx_credits (channels s' r) = 0 \<and> rx_credits_max (channels s' r) = 1"
proof -
  obtain resg s1 where g: "GetSocketID name s = (resg, s1)" by (cases "GetSocketID name s")
  from table_ok_GetSocketID [OF assms(1), of name] g have t1: "table_ok s1" by simp
  have fresh: "allocated s1 \<notin> ran (open_channels s1)"
  proof
    assume "allocated s1 \<in> ran (open_channels s1)"
    then obtain p where "open_channels s1 p = Some (allocated s1)" by (auto simp: ran_def)
    from table_okD [OF t1 this] show False by simp
  qed
  show "table_ok s'"
  proof (cases resg)
    case (Inl e)
    with g assms(2) t1 show ?thesis by (simp add: channel_def)
  next
    case (Inr sid)
    with g assms(2) have s': "s' = s1\<lparr>channels := (channels s1)(allocated s1 := D4Channel_init sid),
               allocated := Suc (allocated s1)\<rparr>"
      by (simp add: channel_def)
    show ?thesis
      unfolding table_ok_def
    proof (intro allI impI)
      fix p r
      assume "open_channels s' p = Some r"
      with s' have q: "open_channels s1 p = Some r" by simp
      with fresh have "r \<noteq> allocated s1" by (auto simp: ran_def)
      with table_okD [OF t1 q] s'
      show "r < allocated s' \<and> 0 \<le> tx_credits (channels s' r)
        \<and> rx_credits (channels s' r) \<le> rx_credits_max (channels s' r)
        \<and> (psid (channels s' r) = None \<or> psid (channels s' r) = Some p)"
        by simp
    qed
  qed
  show "\<forall>r. res = Inr r \<longrightarrow> r \<notin> ran (open_channels s') \<and> r < allocated s'
           \<and> rx_credits (channels s' r) = 0 \<and> rx_credits_max (channels s' r) = 1"
  proof (cases resg)
    case (Inl e)
    with g assms(2) show ?thesis by (auto simp: channel_def)
  next
    case (Inr sid)
    with g assms(2) fresh show ?thesis
      by (auto simp: channel_def D4Channel_init_def)
  qed
qed

lemma unpack_BBHHH_nonneg:
  "unpack_BBHHH bs = Inr (a, b, c, d, e) \<Longrightarrow> 0 \<le> e"
  by (auto simp: unpack_BBHHH_def split: list.splits)

lemma OpenChannel_cases:
  assumes "OpenChannel r s = (res, s')"
  obtains (fail) e where "res = Inl e" "s' = s"
  | (stopped) req resc e where "command D4Command_OpenChannel req s = (resc, s')" "res = Inl e"
  | (opened) req resp s1 p m cr where
      "command D4Command_OpenChannel req s = (Inr resp, s1)" "0 \<le> cr" "res = Inr ()"
      "s' = (update_channel r (\<lambda>c. c\<lparr>psid := Some p, mtu := Some m, tx_credits := cr\<rparr>) s1)
              \<lparr>open_channels := (open_channels s1)(p \<mapsto> r)\<rparr>"
  using assms
  by (auto simp: OpenChannel_def dest: unpack_BBHHH_nonneg
      split: sum.splits prod.splits if_splits)

lemma table_ok_OpenChannel:
  assumes "table_ok s" and "r \<notin> ran (open_channels s)" and "r < allocated s"
    and "rx_credits (channels s r) \<le> 0" and "0 \<le> rx_credits_max (channels s r)"
    and "OpenChannel r s = (res, s')"
  shows "table_ok s' \<and> rx_credits (channels s' r) \<le> 0
           \<and> 0 \<le> rx_credits_max (channels s' r)"
  using assms(6)
proof (cases rule: OpenChannel_cases)
  case (fail e)
  with assms show ?thesis by simp
next
  case (stopped req resc e)
  from stopped(1) have "steady s s'" by (metis steady_command snd_conv)
  from steadyD [OF this, of r] assms(4,5)
    table_ok_command [OF assms(1), of D4Command_OpenChannel req] stopped(1)
  show ?thesis by simp
next
  case (opened req resp s1 p m cr)
  from table_ok_command [OF assms(1), of D4Command_OpenChannel req] opened(1)
  have t1: "table_ok s1" by simp
  from opened(1) have "steady s s1" by (metis steady_command snd_conv)
  from steadyD [OF this, of r] assms(2-5)
  have f: "r \<notin> ran (open_channels s1)" "r < allocated s1" "rx_credits (channels s1 r) \<le> 0"
    "0 \<le> rx_credits_max (channels s1 r)"
    by simp_all
  from opened(4) have o: "open_channels s' = (open_channels s1)(p \<mapsto> r)"
    "allocated s' = allocated s1"
    and ch: "channels s' = (channels s1)(r := (channels s1 r)\<lparr>psid := Some p, mtu := Some m, tx_credits := cr\<rparr>)"
    by (simp_all add: update_channel_def)
  have "table_ok s'"
    unfolding table_ok_def
  proof (intro allI impI)
    fix q r'
    assume a: "open_channels s' q = Some r'"
    show "r' < allocated s' \<and> 0 \<le> tx_credits (channels s' r')
        \<and> rx_credits (channels s' r') \<le> rx_credits_max (channels s' r')
        \<and> (psid (channels s' r') = None \<or> psid (channels s' r') = Some q)"
    proof (cases "q = p")
      case True
      with a o have "r' = r" by simp
      with True f opened(2) o ch show ?thesis by simp
    next
      case False
      with a o have q: "open_channels s1 q = Some r'" by simp
      with f(1) have "r' \<noteq> r" by (auto simp: ran_def)
      with table_okD [OF t1 q] o ch show ?thesis by simp
    qed
  qed
  with f ch show ?thesis by simp
qed

lemma table_ok_D4Channel_enter:
  assumes "table_ok s" and "r \<notin> ran (open_channels s)" and "r < allocated s"
    and "rx_credits (channels s r) \<le> 0" and "0 \<le> rx_credits_max (channels s r)"
  shows "table_ok (snd (D4Channel_enter r s))"
proof -
  obtain res1 s1 where o: "OpenChannel r s = (res1, s1)" by (cases "OpenChannel r s")
  from table_ok_OpenChannel [OF assms o]
  have t1: "table_ok s1" and rx1: "rx_credits (channels s1 r) \<le> 0"
    and m1: "0 \<le> rx_credits_max (channels s1 r)" by simp_all
  show ?thesis
  proof (cases res1)
    case (Inl e)
    with o t1 show ?thesis by (simp add: D4Channel_enter_def)
  next
    case (Inr u)
    obtain res2 s2 where c: "Credit r (rx_credits_max (channels s1 r)) s1 = (res2, s2)"
      by (cases "Credit r (rx_credits_max (channels s1 r)) s1")
    from c have t2: "table_ok s2" by (metis table_ok_Credit t1 snd_conv)
    from c have "steady s1 s2" by (metis steady_Credit snd_conv)
    from steadyD [OF this, of r] rx1 m1
    have rx2: "rx_credits (channels s2 r) \<le> 0" by simp
    show ?thesis
    proof (cases res2)
      case (Inl e)
      with Inr o c t2 show ?thesis by (simp add: D4Channel_enter_def)
    next
      case r2: (Inr u')
      have "table_ok (update_channel r (\<lambda>c. c\<lparr>rx_credits := rx_credits c + rx_credits_max c\<rparr>) s2)"
        unfolding table_ok_def
      proof (intro allI impI)
        fix p r'
        let ?s' = "update_channel r (\<lambda>c. c\<lparr>rx_credits := rx_credits c + rx_credits_max c\<rparr>) s2"
        assume "open_channels ?s' p = Some r'"
        then have q: "open_channels s2 p = Some r'" by (simp add: update_channel_def)
        from table_okD [OF t2 q] rx2
        show "r' < allocated ?s' \<and> 0 \<le> tx_credits (channels ?s' r')
          \<and> rx_credits (channels ?s' r') \<le> rx_credits_max (channels ?s' r')
          \<and> (psid (channels ?s' r') = None \<or> psid (channels ?s' r') = Some p)"
          by (cases "r' = r") (simp_all add: update_channel_def)
      qed
      with Inr r2 o c show ?thesis by (simp add: D4Channel_enter_def)
    qed
  qed
qed

lemma table_ok_open_named:
  assumes "table_ok s"
  shows "table_ok (snd (open_named name s))"
proof -
  obtain res1 s1 where c: "channel name s = (res1, s1)" by (cases "channel name s")
  note ch = table_ok_channel [OF assms c]
  show ?thesis
  proof (cases res1)
    case (Inl e)
    with c ch(1) show ?thesis by (simp add: open_named_def)
  next
    case (Inr r)
    with ch(2) have f: "r \<notin> ran (open_channels s1)" "r < allocated s1"
      "rx_credits (channels s1 r) \<le> 0" "0 \<le> rx_credits_max (channels s1 r)"
      by simp_all
    from table_ok_D4Channel_enter [OF ch(1) f] Inr c show ?thesis
      by (auto simp: open_named_def split: prod.splits sum.splits)
  qed
qed

lemma CloseChannel_cases:
  assumes "CloseChannel r s = (res, s')"
  obtains (fail) e where "res = Inl e" "s' = s"
  | (stopped) req resc e where "command D4Command_CloseChannel req s = (resc, s')" "res = Inl e"
  | (closed) req resp s1 p where
      "command D4Command_CloseChannel req s = (Inr resp, s1)" "res = Inr ()"
      "s' = s1\<lparr>open_channels := (open_channels s1)(p := None)\<rparr>"
  using assms
  by (auto simp: CloseChannel_def split: sum.splits prod.splits option.splits)

lemma table_ok_D4Channel_exit:
  assumes "table_ok s"
  shows "table_ok (snd (D4Channel_exit r s))"
proof -
  obtain res s' where c: "CloseChannel r s = (res, s')" by (cases "CloseChannel r s")
  from c have "table_ok s'"
  proof (cases rule: CloseChannel_cases)
    case (fail e)
    with assms show ?thesis by simp
  next
    case (stopped req resc e)
    with table_ok_command [OF assms, of D4Command_CloseChannel req] show ?thesis by simp
  next
    case (closed req resp s1 p)
    from table_ok_command [OF assms, of D4Command_CloseChannel req] closed(1)
    have "table_ok s1" by simp
    with closed(3) show ?thesis by (auto simp: table_ok_def split: if_splits)
  qed
  with c show ?thesis by (simp add: D4Channel_exit_def)
qed

lemma reachable_table_ok: "reachable s \<Longrightarrow> table_ok s"
proof (induction rule: reachable.induct)
  case (reach_init t s)
  then show ?case by (rule table_ok_D4_init)
next
  case (reach_open s name)
  then show ?case by (simp add: table_ok_open_named)
next
  case (reach_close s r)
  then show ?case by (simp add: table_ok_D4Channel_exit)
next
  case (reach_write s r data)
  then show ?case by (simp add: table_ok_D4Channel_write)
next
  case (reach_read s r)
  then show ?case by (simp add: table_ok_D4Channel_read)
next
  case (reach_socket_id s name)
  then show ?case by (simp add: table_ok_GetSocketID)
next
  case (reach_credit s r amount)
  then show ?case by (simp add: table_ok_Credit)
next
  case (reach_credit_request s r amount)
  then show ?case by (metis table_ok_CreditRequest(1) prod.collapse)
qed

lemma constructed_ok: "D4_init example_transport = Inr constructed"
proof -
  have "\<not> isl (D4_init example_transport)" by code_simp
  then show ?thesis by (simp add: constructed_def)
qed

lemma entered_ok: "D4ControlBackend_enter example_transport = Inr (entered, 1)"
proof -
  have "\<not> isl (D4ControlBackend_enter example_transport)
     \<and> snd (projr (D4ControlBackend_enter example_transport)) = 1" by code_simp
  then show ?thesis
    by (cases "D4ControlBackend_enter example_transport") (auto simp: entered_def)
qed

lemma D4ControlBackend_enter_reachable:
  assumes "D4ControlBackend_enter t = Inr (s, r)"
  shows "reachable s"
proof -
  from assms obtain s0 where i: "D4_init t = Inr s0" and o: "open_named ''EPSON-CTRL'' s0 = (Inr r, s)"
    by (auto simp: D4ControlBackend_enter_def open_named_def split: sum.splits prod.splits)
  from reach_open [OF reach_init [OF i], of "''EPSON-CTRL''"] o show ?thesis by simp
qed

lemma D4ControlBackend_send_reachable:
  assumes "reachable s" and "D4ControlBackend_send cmd (s, r) = (res, (s', r'))"
  shows "reachable s'"
proof -
  obtain resw s1 where w: "D4Channel_write r cmd s = (resw, s1)" by (cases "D4Channel_write r cmd s")
  from reach_write [OF assms(1), of r cmd] w have r1: "reachable s1" by simp
  show ?thesis
  proof (cases resw)
    case (Inl e)
    with w assms(2) r1 show ?thesis by (simp add: D4ControlBackend_send_def)
  next
    case (Inr u)
    obtain resr s2 where rd: "D4Channel_read r s1 = (resr, s2)" by (cases "D4Channel_read r s1")
    from reach_read [OF r1, of r] rd have "reachable s2" by simp
    with Inr w rd assms(2) show ?thesis
      by (auto simp: D4ControlBackend_send_def split: sum.splits)
  qed
qed

text \<open>
  C1, as amended: in every state the engine reaches from its construction by opening,
  closing, writing and reading channels and by the commands \<open>GetSocketID\<close>, \<open>Credit\<close> and
  \<open>CreditRequest\<close>, whether an operation returns or raises, every channel in the table
  (channel 0 included) has \<open>tx_credits \<ge> 0\<close> and \<open>rx_credits \<le> rx_credits_max\<close>.
\<close>

theorem reachable_credits:
  assumes "reachable s" and "open_channels s p = Some r"
  shows "0 \<le> tx_credits (channels s r)
     \<and> rx_credits (channels s r) \<le> rx_credits_max (channels s r)"
  using table_okD [OF reachable_table_ok [OF assms(1)] assms(2)] by simp

theorem reachable_credits_witness:
  "open_channels entered 2 = Some 1
   \<and> 0 \<le> tx_credits (channels entered 1)
   \<and> rx_credits (channels entered 1) \<le> rx_credits_max (channels entered 1)
   \<and> open_channels entered 0 = Some 0
   \<and> 0 \<le> tx_credits (channels entered 0)
   \<and> rx_credits (channels entered 0) \<le> rx_credits_max (channels entered 0)"
proof -
  have r: "reachable entered"
    by (rule D4ControlBackend_enter_reachable [OF entered_ok])
  have o: "open_channels entered 2 = Some 1" "open_channels entered 0 = Some 0"
    unfolding entered_def by code_simp+
  from reachable_credits [OF r o(1)] reachable_credits [OF r o(2)] o show ?thesis by simp
qed

text \<open>
  C1 as stated fails: \<open>rx_credits\<close> of channel 0 is -1 right after the construction and
  -4 once the control backend has opened its channel, since every reply lowers it and
  nothing raises it; and \<open>Exit\<close>, which skips the credit check, takes \<open>tx_credits\<close> of
  channel 0 to -1 when the reply to \<open>Init\<close> granted nothing.
\<close>

theorem credits_counterexample:
  "reachable constructed \<and> open_channels constructed 0 = Some 0
   \<and> rx_credits (channels constructed 0) = -1
   \<and> reachable entered \<and> open_channels entered 0 = Some 0
   \<and> rx_credits (channels entered 0) = -4
   \<and> \<not> isl (D4_init frugal_transport)
   \<and> open_channels (snd (Exit (projr (D4_init frugal_transport)))) 0 = Some 0
   \<and> tx_credits (channels (snd (Exit (projr (D4_init frugal_transport)))) 0) = -1"
proof -
  have r1: "reachable constructed" by (rule reach_init [OF constructed_ok])
  have r2: "reachable entered" by (rule D4ControlBackend_enter_reachable [OF entered_ok])
  have c: "open_channels constructed 0 = Some 0" "rx_credits (channels constructed 0) = -1"
    unfolding constructed_def by code_simp+
  have e: "open_channels entered 0 = Some 0" "rx_credits (channels entered 0) = -4"
    unfolding entered_def by code_simp+
  have f: "\<not> isl (D4_init frugal_transport)"
    "open_channels (snd (Exit (projr (D4_init frugal_transport)))) 0 = Some 0"
    "tx_credits (channels (snd (Exit (projr (D4_init frugal_transport)))) 0) = -1"
    by code_simp+
  from r1 r2 c e f show ?thesis by simp
qed

section \<open>Writing an empty payload\<close>

text \<open>
  C2, as amended: a channel write with an empty payload returns at once; it sends no
  packet and leaves the engine, its channels and the transport as they were.
\<close>

theorem write_empty:
  "D4Channel_write r [] s = (Inr (), s)"
  by (subst D4Channel_write.simps) simp

theorem write_empty_witness:
  "D4Channel_write 1 [] entered = (Inr (), entered)"
  by (rule write_empty)

text \<open>
  C2 as stated fails: on the opened channel of the example, the write of an empty payload
  returns normally with nothing written to the transport and no packet sent.
\<close>

theorem write_empty_counterexample:
  "fst (D4Channel_write 1 [] entered) = Inr ()
   \<and> outbound (transport (snd (D4Channel_write 1 [] entered))) = outbound (transport entered)
   \<and> sent_packets 1 (history (snd (D4Channel_write 1 [] entered))) = []"
  unfolding entered_def by code_simp

section \<open>Fragments of a channel write\<close>

lemma ensure_credit_channel0:
  assumes "open_channels s 0 = Some r" and "0 \<le> tx_credits (channels s r)"
    and "ensure_credit r s = (Inr u, s')"
  shows "s' = s"
proof (cases "tx_credits (channels s r) < 1")
  case False
  with assms(3) show ?thesis by (simp add: ensure_credit_def)
next
  case True
  with assms(2) have z: "tx_credits (channels s r) = 0" by simp
  from True assms(3) have "CreditRequest_loop r s = (Inr u, s')"
    by (simp add: ensure_credit_def)
  then obtain g s1 where c: "CreditRequest r 0xFFFF s = (Inr g, s1)"
    by (subst (asm) CreditRequest_loop.simps) (auto split: prod.splits sum.splits)
  from c have False
  proof (cases rule: CreditRequest_cases)
    case (granted req resp s1' p r' g')
    from granted(1) show False
    proof (cases rule: command_cases)
      case (sent r0 s2 res2)
      with assms(1) z show False by simp
    qed simp
  qed simp_all
  then show ?thesis ..
qed

lemma write_fragment_sent:
  assumes "write_fragment r data s = (Inr data', s')"
    and "mtu (channels s r) = Some m" and "6 < m"
    and "open_channels s 0 = Some r \<longrightarrow> 0 \<le> tx_credits (channels s r)"
  shows "data' = drop (nat (m - 6)) data
    \<and> (\<exists>s2. ensure_credit r
               (update_channel r
                  (\<lambda>c. c\<lparr>rx_credits := rx_credits c
                       + min (rx_credits_max (channels s r) - rx_credits (channels s r)) 0xFF\<rparr>) s)
             = (Inr (), s2)
          \<and> write_packet r
               (D4Packet (psid (channels s r)) (ssid (channels s r))
                  (min (rx_credits_max (channels s r) - rx_credits (channels s r)) 0xFF) 2
                  (take (nat (m - 6)) data)) s2 = (Inr (), s')
          \<and> tx_credits (channels s' r) = tx_credits (channels s2 r) - 1)
    \<and> sent_packets r (history s')
        = sent_packets r (history s)
          @ [D4Packet (psid (channels s r)) (ssid (channels s r))
               (min (rx_credits_max (channels s r) - rx_credits (channels s r)) 0xFF) 2
               (take (nat (m - 6)) data)]
    \<and> mtu (channels s' r) = Some m
    \<and> (open_channels s' 0 = Some r \<longrightarrow> 0 \<le> tx_credits (channels s' r))"
  using assms(1)
proof (cases rule: write_fragment_cases)
  case untyped
  then show ?thesis by simp
next
  case (nocredit m' e)
  then show ?thesis by simp
next
  case (written m' s2 resw)
  let ?cr = "min (rx_credits_max (channels s r) - rx_credits (channels s r)) 0xFF"
  let ?s1 = "update_channel r (\<lambda>c. c\<lparr>rx_credits := rx_credits c + ?cr\<rparr>) s"
  from written(1) assms(2) have m': "m' = m" by simp
  have pl: "(if int (length data) > m - 6 then slice_to (m - 6) data else data)
              = take (nat (m - 6)) data"
    using assms(3) by (auto simp: slice_to_def)
  let ?packet = "D4Packet (psid (channels s r)) (ssid (channels s r)) ?cr 2 (take (nat (m - 6)) data)"
  from written(3) have w: "write_packet r ?packet s2 = (resw, s')"
    unfolding m' pl .
  from written(4) have "Inr data' = (case resw of Inl e \<Rightarrow> Inl e
              | Inr u \<Rightarrow> Inr (drop (length (take (nat (m - 6)) data)) data))"
    unfolding m' pl .
  then obtain u where resw: "resw = Inr u"
    and d: "data' = drop (length (take (nat (m - 6)) data)) data"
    by (cases resw) auto
  from d have d': "data' = drop (nat (m - 6)) data"
    by (cases "nat (m - 6) \<le> length data") (simp_all add: min_def)
  from w resw have w': "write_packet r ?packet s2 = (Inr (), s')" by simp
  then have s': "history s' = history s2 @ [Sent r ?packet]"
    "channels s' = (channels s2)(r := (channels s2 r)\<lparr>tx_credits := tx_credits (channels s2 r) - 1\<rparr>)"
    "open_channels s' = open_channels s2"
    by (auto elim!: write_packet_cases simp: update_channel_def record_event_def)
  have st: "steady ?s1 s2" using written(2) by (metis steady_ensure_credit snd_conv)
  have o1: "open_channels ?s1 = open_channels s" "history ?s1 = history s"
    "mtu (channels ?s1 r) = mtu (channels s r)"
    "tx_credits (channels ?s1 r) = tx_credits (channels s r)"
    by (simp_all add: update_channel_def)
  from st o1 have k: "open_channels s2 = open_channels s"
    "mtu (channels s2 r) = mtu (channels s r)"
    by (simp_all add: steady_def)
  have sp: "sent_packets r (history s2) = sent_packets r (history s)"
    and tx: "open_channels s 0 = Some r \<longrightarrow> 1 \<le> tx_credits (channels s2 r)"
  proof -
    show "sent_packets r (history s2) = sent_packets r (history s)"
    proof (cases "open_channels s 0 = Some r")
      case True
      with assms(4) o1 have "open_channels ?s1 0 = Some r" "0 \<le> tx_credits (channels ?s1 r)"
        by simp_all
      from ensure_credit_channel0 [OF this written(2)] o1 show ?thesis by simp
    next
      case False
      with st o1 show ?thesis by (simp add: steady_def)
    qed
    show "open_channels s 0 = Some r \<longrightarrow> 1 \<le> tx_credits (channels s2 r)"
    proof
      assume a: "open_channels s 0 = Some r"
      with assms(4) o1 have b: "open_channels ?s1 0 = Some r" "0 \<le> tx_credits (channels ?s1 r)"
        by simp_all
      from ensure_credit_channel0 [OF b written(2)] have e: "s2 = ?s1" .
      have "\<not> tx_credits (channels ?s1 r) < 1"
      proof
        assume lt: "tx_credits (channels ?s1 r) < 1"
        with written(2) have "CreditRequest_loop r ?s1 = (Inr (), s2)"
          by (simp add: ensure_credit_def)
        then obtain g s3 where c: "CreditRequest r 0xFFFF ?s1 = (Inr g, s3)"
          by (subst (asm) CreditRequest_loop.simps) (auto split: prod.splits sum.splits)
        from c show False
        proof (cases rule: CreditRequest_cases)
          case (granted req resp s1' p r' g')
          from granted(1) show False
          proof (cases rule: command_cases)
            case (sent r0 s4 res2)
            with b lt show False by simp
          qed simp
        qed simp_all
      qed
      with e show "1 \<le> tx_credits (channels s2 r)" by simp
    qed
  qed
  from d' written(2) m' w' s' k sp tx assms(2) show ?thesis
    by (auto simp add: sent_packets_append)
qed

lemma chunks_step:
  "xs \<noteq> [] \<Longrightarrow> 0 < n \<Longrightarrow> chunks n xs = take n xs # chunks n (drop n xs)"
  by (subst chunks.simps) simp

lemma chunks_Nil: "chunks n [] = []"
  by (subst chunks.simps) simp

lemma D4Channel_write_sent:
  "D4Channel_write r data s = (Inr (), s') \<Longrightarrow> mtu (channels s r) = Some m \<Longrightarrow> 6 < m
     \<Longrightarrow> open_channels s 0 = Some r \<longrightarrow> 0 \<le> tx_credits (channels s r)
     \<Longrightarrow> \<exists>new. sent_packets r (history s') = sent_packets r (history s) @ new
           \<and> map payload new = chunks (nat (m - 6)) data
           \<and> (\<forall>packet \<in> set new. control packet = 2)"
proof (induction r data s rule: D4Channel_write.induct)
  case (1 r data s)
  show ?case
  proof (cases "data = []")
    case True
    with "1.prems"(1) have "s' = s" by (subst (asm) D4Channel_write.simps) simp
    with True show ?thesis by (simp add: chunks_Nil)
  next
    case False
    obtain res s1 where f: "write_fragment r data s = (res, s1)"
      by (cases "write_fragment r data s")
    with False "1.prems"(1) obtain data' where res: "res = Inr data'"
      and rest: "D4Channel_write r data' s1 = (Inr (), s')"
      by (subst (asm) D4Channel_write.simps) (auto split: sum.splits)
    from f res have f': "write_fragment r data s = (Inr data', s1)" by simp
    note ws = write_fragment_sent [OF f' "1.prems"(2,3,4)]
    let ?packet = "D4Packet (psid (channels s r)) (ssid (channels s r))
               (min (rx_credits_max (channels s r) - rx_credits (channels s r)) 0xFF) 2
               (take (nat (m - 6)) data)"
    from ws have d: "data' = drop (nat (m - 6)) data"
      and h1: "sent_packets r (history s1) = sent_packets r (history s) @ [?packet]"
      and m1: "mtu (channels s1 r) = Some m"
      and o1: "open_channels s1 0 = Some r \<longrightarrow> 0 \<le> tx_credits (channels s1 r)"
      by simp_all
    from "1.IH" [OF False f [symmetric] res rest m1 "1.prems"(3) o1]
    obtain new where n: "sent_packets r (history s') = sent_packets r (history s1) @ new"
      "map payload new = chunks (nat (m - 6)) data'" "\<forall>packet \<in> set new. control packet = 2"
      by blast
    from "1.prems"(3) False d have "chunks (nat (m - 6)) data
        = take (nat (m - 6)) data # chunks (nat (m - 6)) data'"
      by (simp add: chunks_step)
    with n h1 show ?thesis
      by (intro exI [of _ "?packet # new"]) simp
  qed
qed

lemma concat_chunks: "0 < n \<Longrightarrow> concat (chunks n xs) = xs"
proof (induction n xs rule: chunks.induct)
  case (1 n xs)
  show ?case
  proof (cases "xs = []")
    case True
    then show ?thesis by (simp add: chunks_Nil)
  next
    case False
    with "1.prems" "1.IH" show ?thesis by (simp add: chunks_step)
  qed
qed

lemma chunks_lengths:
  "0 < n \<Longrightarrow> chunks n xs = cs @ [c] \<Longrightarrow> (\<forall>c' \<in> set cs. length c' = n) \<and> 0 < length c \<and> length c \<le> n"
proof (induction n xs arbitrary: cs rule: chunks.induct)
  case (1 n xs)
  show ?case
  proof (cases "xs = []")
    case True
    with "1.prems" show ?thesis by (simp add: chunks_Nil)
  next
    case False
    with "1.prems" have eq: "take n xs # chunks n (drop n xs) = cs @ [c]"
      by (simp add: chunks_step)
    show ?thesis
    proof (cases cs)
      case Nil
      with eq have c: "c = take n xs" and r: "chunks n (drop n xs) = []" by simp_all
      have "drop n xs = []"
      proof (rule ccontr)
        assume "drop n xs \<noteq> []"
        with "1.prems"(1) r show False by (simp add: chunks_step)
      qed
      with c False Nil "1.prems"(1) show ?thesis by auto
    next
      case (Cons c0 cs')
      with eq have c0: "c0 = take n xs" and r: "chunks n (drop n xs) = cs' @ [c]" by simp_all
      from r have "drop n xs \<noteq> []" by (auto simp: chunks_Nil)
      then have "n < length xs" by simp
      with c0 have "length c0 = n" by simp
      with "1.IH" [OF _ "1.prems"(1) r] False "1.prems"(1) Cons show ?thesis by simp
    qed
  qed
qed

text \<open>
  C4, as amended: on a channel with mtu \<open>m > 6\<close> (whose \<open>tx_credits\<close> is not negative
  if it is the channel registered as channel 0, as in every reachable state), a write of
  a non-empty payload that completes sends, in order, the consecutive fragments of
  \<open>m - 6\<close> bytes of the payload (the last possibly shorter, none empty), each with
  \<open>control = 2\<close>. Each iteration builds its packet with
  \<open>credit = min(rx_credits_max - rx_credits, 0xFF)\<close>, adds that credit to \<open>rx_credits\<close>,
  makes sure of a credit, sends the packet, which lowers \<open>tx_credits\<close> by exactly 1,
  and goes on with the rest of the payload under the same conditions.
\<close>

theorem write_fragments:
  assumes "D4Channel_write r data s = (Inr (), s')" and "data \<noteq> []"
    and "mtu (channels s r) = Some m" and "6 < m"
    and "open_channels s 0 = Some r \<longrightarrow> 0 \<le> tx_credits (channels s r)"
  shows "(\<exists>new. sent_packets r (history s') = sent_packets r (history s) @ new
            \<and> map payload new = chunks (nat (m - 6)) data
            \<and> concat (map payload new) = data
            \<and> (\<forall>packet \<in> set new. control packet = 2
                  \<and> 0 < length (payload packet) \<and> int (length (payload packet)) \<le> m - 6)
            \<and> (\<forall>packet \<in> set (butlast new). int (length (payload packet)) = m - 6))
     \<and> (\<exists>s2 s3.
           ensure_credit r
             (update_channel r
                (\<lambda>c. c\<lparr>rx_credits := rx_credits c
                     + min (rx_credits_max (channels s r) - rx_credits (channels s r)) 0xFF\<rparr>) s)
             = (Inr (), s2)
         \<and> write_packet r
             (D4Packet (psid (channels s r)) (ssid (channels s r))
                (min (rx_credits_max (channels s r) - rx_credits (channels s r)) 0xFF) 2
                (take (nat (m - 6)) data)) s2 = (Inr (), s3)
         \<and> tx_credits (channels s3 r) = tx_credits (channels s2 r) - 1
         \<and> mtu (channels s3 r) = Some m
         \<and> (open_channels s3 0 = Some r \<longrightarrow> 0 \<le> tx_credits (channels s3 r))
         \<and> D4Channel_write r (drop (nat (m - 6)) data) s3 = (Inr (), s'))"
proof
  from D4Channel_write_sent [OF assms(1,3,4,5)]
  obtain new where n: "sent_packets r (history s') = sent_packets r (history s) @ new"
    "map payload new = chunks (nat (m - 6)) data" "\<forall>packet \<in> set new. control packet = 2"
    by blast
  from assms(4) have pos: "0 < nat (m - 6)" by simp
  from n(2) concat_chunks [OF pos, of data] have c: "concat (map payload new) = data" by simp
  with assms(2) have "new \<noteq> []" by auto
  then obtain ps p where snoc: "new = ps @ [p]" by (metis rev_exhaust)
  with n(2) have "chunks (nat (m - 6)) data = map payload ps @ [payload p]" by simp
  from chunks_lengths [OF pos this] assms(4)
  have l: "\<forall>c' \<in> set (map payload ps). length c' = nat (m - 6)"
    "0 < length (payload p)" "length (payload p) \<le> nat (m - 6)"
    by simp_all
  from l assms(4) have "\<forall>packet \<in> set new.
      0 < length (payload packet) \<and> int (length (payload packet)) \<le> m - 6"
    unfolding snoc by auto
  moreover from l(1) assms(4) have "\<forall>packet \<in> set (butlast new). int (length (payload packet)) = m - 6"
    unfolding snoc by auto
  ultimately show "\<exists>new. sent_packets r (history s') = sent_packets r (history s) @ new
            \<and> map payload new = chunks (nat (m - 6)) data
            \<and> concat (map payload new) = data
            \<and> (\<forall>packet \<in> set new. control packet = 2
                  \<and> 0 < length (payload packet) \<and> int (length (payload packet)) \<le> m - 6)
            \<and> (\<forall>packet \<in> set (butlast new). int (length (payload packet)) = m - 6)"
    using n c by (intro exI [of _ new]) simp
next
  obtain res s1 where f: "write_fragment r data s = (res, s1)"
    by (cases "write_fragment r data s")
  with assms(1,2) obtain data' where res: "res = Inr data'"
    and rest: "D4Channel_write r data' s1 = (Inr (), s')"
    by (subst (asm) D4Channel_write.simps) (auto split: sum.splits)
  from f res have f': "write_fragment r data s = (Inr data', s1)" by simp
  from write_fragment_sent [OF f' assms(3,4,5)] obtain s2 where
    k: "data' = drop (nat (m - 6)) data"
      "ensure_credit r
             (update_channel r
                (\<lambda>c. c\<lparr>rx_credits := rx_credits c
                     + min (rx_credits_max (channels s r) - rx_credits (channels s r)) 0xFF\<rparr>) s)
             = (Inr (), s2)"
      "write_packet r
             (D4Packet (psid (channels s r)) (ssid (channels s r))
                (min (rx_credits_max (channels s r) - rx_credits (channels s r)) 0xFF) 2
                (take (nat (m - 6)) data)) s2 = (Inr (), s1)"
      "tx_credits (channels s1 r) = tx_credits (channels s2 r) - 1"
      "mtu (channels s1 r) = Some m"
      "open_channels s1 0 = Some r \<longrightarrow> 0 \<le> tx_credits (channels s1 r)"
    by blast
  from k rest
  show "\<exists>s2 s3.
           ensure_credit r
             (update_channel r
                (\<lambda>c. c\<lparr>rx_credits := rx_credits c
                     + min (rx_credits_max (channels s r) - rx_credits (channels s r)) 0xFF\<rparr>) s)
             = (Inr (), s2)
         \<and> write_packet r
             (D4Packet (psid (channels s r)) (ssid (channels s r))
                (min (rx_credits_max (channels s r) - rx_credits (channels s r)) 0xFF) 2
                (take (nat (m - 6)) data)) s2 = (Inr (), s3)
         \<and> tx_credits (channels s3 r) = tx_credits (channels s2 r) - 1
         \<and> mtu (channels s3 r) = Some m
         \<and> (open_channels s3 0 = Some r \<longrightarrow> 0 \<le> tx_credits (channels s3 r))
         \<and> D4Channel_write r (drop (nat (m - 6)) data) s3 = (Inr (), s')"
    by (intro exI [of _ s2] exI [of _ s1]) simp
qed

lemma reachable_channel0:
  "reachable s \<Longrightarrow> open_channels s 0 = Some r \<longrightarrow> 0 \<le> tx_credits (channels s r)"
  using table_okD [OF reachable_table_ok, of s 0 r] by simp

lemma entered_roomy_ok: "D4ControlBackend_enter roomy_transport = Inr (entered_roomy, 1)"
proof -
  have "\<not> isl (D4ControlBackend_enter roomy_transport)
     \<and> snd (projr (D4ControlBackend_enter roomy_transport)) = 1" by code_simp
  then show ?thesis
    by (cases "D4ControlBackend_enter roomy_transport") (auto simp: entered_roomy_def)
qed

theorem write_fragments_witness:
  "sent_packets 1 (history (snd (D4Channel_write 1 [1, 2, 3, 4, 5] entered_roomy)))
     = [D4Packet (Some 2) 2 0 2 [1, 2], D4Packet (Some 2) 2 0 2 [3, 4],
        D4Packet (Some 2) 2 0 2 [5]]
   \<and> map payload (sent_packets 1 (history (snd (D4Channel_write 1 [1, 2, 3, 4, 5] entered_roomy))))
     = chunks 2 [1, 2, 3, 4, 5]"
proof -
  let ?s' = "snd (D4Channel_write 1 [1, 2, 3, 4, 5] entered_roomy)"
  have "fst (D4Channel_write 1 [1, 2, 3, 4, 5] entered_roomy) = Inr ()"
    unfolding entered_roomy_def by code_simp
  then have h1: "D4Channel_write 1 [1, 2, 3, 4, 5] entered_roomy = (Inr (), ?s')"
    by (simp add: prod_eq_iff)
  have h3: "mtu (channels entered_roomy 1) = Some 8"
    and h0: "sent_packets 1 (history entered_roomy) = []"
    unfolding entered_roomy_def by code_simp+
  have h5: "open_channels entered_roomy 0 = Some 1
      \<longrightarrow> 0 \<le> tx_credits (channels entered_roomy 1)"
    by (rule reachable_channel0 [OF D4ControlBackend_enter_reachable [OF entered_roomy_ok]])
  have v: "sent_packets 1 (history ?s')
     = [D4Packet (Some 2) 2 0 2 [1, 2], D4Packet (Some 2) 2 0 2 [3, 4],
        D4Packet (Some 2) 2 0 2 [5]]"
    unfolding entered_roomy_def by code_simp
  from write_fragments [OF h1 _ h3 _ h5] h0
  have "map payload (sent_packets 1 (history ?s')) = chunks (nat (8 - 6)) [1, 2, 3, 4, 5]"
    by auto
  with v show ?thesis by simp
qed

text \<open>
  C4 as stated fails for an mtu of 6: each iteration sends a packet with an empty payload
  and keeps the whole payload for the next one, so the write uses up its credits and
  never sends the data (with the script at its end the request for more credit fails).
\<close>

theorem write_fragments_counterexample:
  "mtu (channels entered_tight 1) = Some 6
   \<and> open_channels entered_tight 2 = Some 1
   \<and> fst (D4Channel_write 1 [7] entered_tight) = Inl OSError
   \<and> sent_packets 1 (history entered_tight) = []
   \<and> sent_packets 1 (history (snd (D4Channel_write 1 [7] entered_tight)))
       = [D4Packet (Some 2) 2 0 2 [], D4Packet (Some 2) 2 0 2 []]"
  unfolding entered_tight_def by code_simp

end
